theory Spec2Isabelle
  imports Main "HOL-Library.Sublist"
begin

section \<open>Data model of \<open>downloader_gui.py\<close>\<close>

text \<open>
  The engine drives a browser page through a third-party library. The model makes every
  outcome of that library an input: an exception is a value of \<open>exn\<close>, and one attempt's
  worth of library answers is a \<open>page_script\<close>. The exceptions are the ones derived from
  Python's \<open>Exception\<close>: the library's timeout error, told apart because
  \<open>download_file\<close> has a handler of its own for it, and any other one. The string is
  \<open>str(e)\<close>.
\<close>

datatype exn = PlaywrightTimeoutError string | OtherException string

fun str_of_exn :: "exn \<Rightarrow> string" where
  "str_of_exn (PlaywrightTimeoutError m) = m"
| "str_of_exn (OtherException m) = m"

text \<open>The second argument of \<open>log\<close>; its default is \<open>INFO\<close>.\<close>

datatype level = INFO | SUCCESS | WARNING | ERROR

text \<open>
  One constructor for each message that the engine formats, with the values that the
  format string interpolates. The time stamp that \<open>log\<close> puts in front is left out.
\<close>

datatype message =
    AttemptOpening nat nat string   \<comment> \<open>\<open>[Attempt {attempt}/{max_retries + 1}] Opening: {url}\<close>\<close>
  | PageLoaded                      \<comment> \<open>\<open>Page loaded successfully\<close>\<close>
  | ButtonNotFound string           \<comment> \<open>\<open>Download button not found: {selector}\<close>\<close>
  | FoundButton                     \<comment> \<open>\<open>Found download button, initiating download...\<close>\<close>
  | Downloading string              \<comment> \<open>\<open>Downloading: {filename}\<close>\<close>
  | Complete string nat             \<comment> \<open>\<open>Complete: {filename} ({file_size:,} bytes)\<close>\<close>
  | FileNotSaved string             \<comment> \<open>\<open>File not saved: {filename}\<close>\<close>
  | TimeoutMsg string               \<comment> \<open>\<open>Timeout: {str(e)}\<close>\<close>
  | ErrorMsg string                 \<comment> \<open>\<open>Error: {str(e)}\<close>\<close>
  | Rule50                          \<comment> \<open>\<open>"=" * 50\<close>\<close>
  | StartingDownloads               \<comment> \<open>\<open>Starting downloads...\<close>\<close>
  | UrlsToProcess nat               \<comment> \<open>\<open>URLs to process: {len(urls)}\<close>\<close>
  | DownloadFolder string           \<comment> \<open>\<open>Download folder: {download_path}\<close>\<close>
  | ButtonSelector string           \<comment> \<open>\<open>Button selector: {selector}\<close>\<close>
  | BrowserLine string string       \<comment> \<open>\<open>Browser: {browser_type}\<close> and the path, if any\<close>
  | LaunchingBrowser                \<comment> \<open>\<open>Launching browser...\<close>\<close>
  | UsingCustomBrowser string       \<comment> \<open>\<open>Using custom browser: {custom_browser_path}\<close>\<close>
  | StoppedByUser                   \<comment> \<open>\<open>Download stopped by user\<close>\<close>
  | Rule40                          \<comment> \<open>\<open>"-" * 40\<close>\<close>
  | ProcessingUrl nat nat           \<comment> \<open>\<open>Processing URL {index}/{len(urls)}\<close>\<close>
  | RetryingIn nat                  \<comment> \<open>\<open>Retrying in {delay} seconds...\<close>\<close>
  | WaitingFor nat                  \<comment> \<open>\<open>Waiting {delay} seconds...\<close>\<close>
  | ClosingBrowser                  \<comment> \<open>\<open>Closing browser...\<close>\<close>
  | BrowserError string             \<comment> \<open>\<open>Browser error: {str(e)}\<close>\<close>
  | DownloadSummary                 \<comment> \<open>\<open>DOWNLOAD SUMMARY\<close>\<close>
  | Totals nat nat nat              \<comment> \<open>\<open>Total: {len(urls)} | Success: {successful} | Failed: {failed}\<close>\<close>
  | FailedUrlsHeader                \<comment> \<open>\<open>Failed URLs:\<close>\<close>
  | FailedUrl string                \<comment> \<open>\<open>  - {url}\<close>\<close>
  | Done                            \<comment> \<open>\<open>Done!\<close>\<close>

datatype engine_family = Firefox | WebKit | Chromium

text \<open>The dictionary \<open>launch_options\<close>; \<open>executable_path\<close> is an optional key.\<close>

record launch_options =
  opt_headless :: bool
  opt_slow_mo :: nat
  opt_executable_path :: "string option"

text \<open>The three places where \<open>run\<close> reads \<open>self.should_stop\<close>.\<close>

datatype checkpoint =
    ItemStart       \<comment> \<open>top of the loop over the addresses\<close>
  | BeforeAttempt   \<comment> \<open>top of the loop over the attempts\<close>
  | AfterItem       \<comment> \<open>the condition of the delay between downloads\<close>

text \<open>
  What a run does that can be seen from outside, in the order in which it happens: the log
  lines, the calls into the browser library and the file system, the sleeps, and the
  accesses to the shared flag \<open>should_stop\<close> by the worker (\<open>FlagReset\<close>, \<open>Checked\<close>)
  and by the controlling thread (\<open>StopRequested\<close>, a call of \<open>stop()\<close>). The worker
  looks at the flag only at its own accesses, so the trace is the worker's view: a call of
  \<open>stop()\<close> can come at any moment, also in the middle of an attempt or of a sleep, and
  \<open>StopRequested\<close> stands where the call takes effect on the worker, right before the
  access that first meets it. What the worker did between the call and that access, the rest
  of an attempt, a retry notice and its sleep, stands before \<open>StopRequested\<close>.
\<close>

datatype event =
    Log level message
  | Mkdir string
  | StartPlaywright
  | Launch engine_family launch_options
  | NewContext
  | NewPage
  | Goto string nat
  | WaitForTimeout nat
  | LocatorCount string
  | ExpectDownloadClick string nat
  | SaveAs string string
  | Sleep nat
  | CloseContext
  | CloseBrowser
  | StopRequested
  | FlagReset
  | Checked checkpoint bool

text \<open>The answers of the page to one call of \<open>download_file\<close>, one field for each call that can fail.\<close>

record page_script =
  goto_raises :: "exn option"          \<comment> \<open>\<open>page.goto\<close>\<close>
  wait_raises :: "exn option"          \<comment> \<open>\<open>page.wait_for_timeout\<close>\<close>
  locator_count :: "exn + nat"         \<comment> \<open>\<open>page.locator(selector).count()\<close>\<close>
  click_download :: "exn + string"     \<comment> \<open>the click inside \<open>expect_download\<close>; the suggested file name\<close>
  save_raises :: "exn option"          \<comment> \<open>\<open>download.save_as\<close>\<close>
  saved_exists :: bool                 \<comment> \<open>\<open>os.path.exists(save_path)\<close>\<close>
  saved_size :: "exn + nat"            \<comment> \<open>\<open>os.path.getsize(save_path)\<close>\<close>

text \<open>
  The dictionary \<open>settings\<close>. The retry count and the delay come from spin boxes that
  start at 0 and 1, so they are natural numbers; the time-outs are in seconds.
\<close>

record settings =
  download_folder :: string
  selector :: string
  max_retries :: nat
  delay :: nat
  headless :: bool
  page_timeout :: nat
  download_timeout :: nat
  browser_type :: string
  custom_browser_path :: string

text \<open>
  Everything outside the worker. \<open>stop_calls k\<close> tells whether the controlling thread
  calls \<open>stop()\<close> between the worker's accesses number \<open>k - 1\<close> and \<open>k\<close> to the flag
  (access 0 is the assignment at the start of \<open>run\<close>); a call made while an attempt or a
  sleep is under way is thus seen by the next read. \<open>pages n\<close> answers call number \<open>n\<close>
  of \<open>download_file\<close>, counted from 0 over the whole run.
\<close>

record env =
  stop_calls :: "nat \<Rightarrow> bool"
  pages :: "nat \<Rightarrow> page_script"
  path_exists :: "string \<Rightarrow> bool"
  mkdir_raises :: "exn option"
  playwright_raises :: "exn option"
  launch_raises :: "engine_family \<Rightarrow> launch_options \<Rightarrow> exn option"
  new_context_raises :: "exn option"
  new_page_raises :: "exn option"
  close_context_raises :: "exn option"
  close_browser_raises :: "exn option"

text \<open>
  The two attributes of \<open>DownloaderEngine\<close>, and the two counters that index \<open>env\<close>:
  the accesses to the flag and the calls of \<open>download_file\<close> made so far.
\<close>

record world =
  is_running :: bool
  should_stop :: bool
  accesses :: nat
  calls :: nat

text \<open>The local variables \<open>successful\<close>, \<open>failed\<close> and \<open>failed_urls\<close> of \<open>run\<close>.\<close>

record tally =
  successful :: nat
  failed :: nat
  failed_urls :: "string list"

section \<open>\<open>DownloaderEngine.download_file\<close>\<close>

text \<open>The body of the \<open>try\<close>: the value returned or the exception raised, and the events up to there.\<close>

definition download_file_try ::
  "page_script \<Rightarrow> string \<Rightarrow> string \<Rightarrow> string \<Rightarrow> nat \<Rightarrow> nat \<Rightarrow> nat \<Rightarrow> nat \<Rightarrow> (exn + bool) \<times> event list" where
  "download_file_try ps url download_path sel attempt maxr ptimeout dtimeout =
    (let e0 = [Log INFO (AttemptOpening attempt (maxr + 1) url), Goto url ptimeout] in
     case goto_raises ps of
       Some x \<Rightarrow> (Inl x, e0)
     | None \<Rightarrow>
        (let e1 = e0 @ [Log INFO PageLoaded, WaitForTimeout 1000] in
         case wait_raises ps of
           Some x \<Rightarrow> (Inl x, e1)
         | None \<Rightarrow>
            (let e2 = e1 @ [LocatorCount sel] in
             case locator_count ps of
               Inl x \<Rightarrow> (Inl x, e2)
             | Inr n \<Rightarrow>
                if n = 0 then (Inr False, e2 @ [Log WARNING (ButtonNotFound sel)])
                else
                 (let e3 = e2 @ [Log INFO FoundButton, ExpectDownloadClick sel dtimeout] in
                  case click_download ps of
                    Inl x \<Rightarrow> (Inl x, e3)
                  | Inr filename \<Rightarrow>
                     (let e4 = e3 @ [Log INFO (Downloading filename), SaveAs download_path filename] in
                      case save_raises ps of
                        Some x \<Rightarrow> (Inl x, e4)
                      | None \<Rightarrow>
                         if saved_exists ps then
                           (case saved_size ps of
                              Inl x \<Rightarrow> (Inl x, e4)
                            | Inr file_size \<Rightarrow> (Inr True, e4 @ [Log SUCCESS (Complete filename file_size)]))
                         else (Inr False, e4 @ [Log ERROR (FileNotSaved filename)]))))))"

text \<open>
  The two \<open>except\<close> clauses around it: one for the time-out, one for \<open>Exception\<close>.
  Both log at level \<open>ERROR\<close> and return \<open>False\<close>; they differ in the message.
\<close>

fun except_message :: "exn \<Rightarrow> message" where
  "except_message (PlaywrightTimeoutError m) = TimeoutMsg m"
| "except_message (OtherException m) = ErrorMsg m"

definition download_file ::
  "page_script \<Rightarrow> string \<Rightarrow> string \<Rightarrow> string \<Rightarrow> nat \<Rightarrow> nat \<Rightarrow> nat \<Rightarrow> nat \<Rightarrow> bool \<times> event list" where
  "download_file ps url download_path sel attempt maxr ptimeout dtimeout =
    (case download_file_try ps url download_path sel attempt maxr ptimeout dtimeout of
       (Inr b, ev) \<Rightarrow> (b, ev)
     | (Inl e, ev) \<Rightarrow> (False, ev @ [Log ERROR (except_message e)]))"

section \<open>\<open>DownloaderEngine.run\<close> and \<open>stop\<close>\<close>

text \<open>The method \<open>stop\<close>.\<close>

definition stop :: "world \<Rightarrow> world" where
  "stop w = w\<lparr>should_stop := True\<rparr>"

text \<open>
  A read of \<open>self.should_stop\<close>. A call of \<open>stop()\<close> that the controlling thread has made
  since the last access, at whatever moment, has set the flag by now; the read is where
  the worker meets it.
\<close>

definition read_should_stop :: "env \<Rightarrow> checkpoint \<Rightarrow> world \<Rightarrow> bool \<times> world \<times> event list" where
  "read_should_stop en cp w =
    (let called = stop_calls en (accesses w);
         w' = (if called then stop w else w);
         v = should_stop w'
     in (v, w'\<lparr>accesses := Suc (accesses w)\<rparr>,
         (if called then [StopRequested] else []) @ [Checked cp v]))"

text \<open>Call number \<open>n\<close> of \<open>download_file\<close>, as \<open>run\<close> makes it for attempt \<open>a\<close> on \<open>url\<close>.\<close>

definition attempt :: "env \<Rightarrow> settings \<Rightarrow> string \<Rightarrow> nat \<Rightarrow> nat \<Rightarrow> bool \<times> event list" where
  "attempt en st url n a =
    download_file (pages en n) url (download_folder st) (selector st) a (max_retries st)
      (page_timeout st * 1000) (download_timeout st * 1000)"

text \<open>
  The loop \<open>for attempt in range(1, max_retries + 2)\<close>, over the attempts that are left;
  \<open>success\<close> is the variable of that name.
\<close>

fun retry_loop :: "env \<Rightarrow> settings \<Rightarrow> string \<Rightarrow> nat list \<Rightarrow> bool \<Rightarrow> world \<Rightarrow> bool \<times> world \<times> event list" where
  "retry_loop en st url [] success w = (success, w, [])"
| "retry_loop en st url (a # rest) success w =
    (case read_should_stop en BeforeAttempt w of
       (halt, w1, e1) \<Rightarrow>
        if halt then (success, w1, e1)
        else
          (case attempt en st url (calls w1) a of
             (success', e2) \<Rightarrow>
              (let w2 = w1\<lparr>calls := Suc (calls w1)\<rparr> in
               if success' then (success', w2, e1 @ e2)
               else
                (let e3 = (if a \<le> max_retries st
                           then [Log INFO (RetryingIn (delay st)), Sleep (delay st)] else [])
                 in case retry_loop en st url rest success' w2 of
                      (r, w3, e4) \<Rightarrow> (r, w3, e1 @ e2 @ e3 @ e4)))))"

text \<open>The body of the loop over the addresses, after its check of the flag.\<close>

definition process_item ::
  "env \<Rightarrow> settings \<Rightarrow> nat \<Rightarrow> nat \<Rightarrow> string \<Rightarrow> tally \<Rightarrow> world \<Rightarrow> tally \<times> world \<times> event list" where
  "process_item en st len index url t w =
    (let e1 = [Log INFO Rule40, Log INFO (ProcessingUrl index len)] in
     case retry_loop en st url [1..<max_retries st + 2] False w of
       (success, w2, e2) \<Rightarrow>
        (let t' = (if success then t\<lparr>successful := successful t + 1\<rparr>
                   else t\<lparr>failed := failed t + 1, failed_urls := failed_urls t @ [url]\<rparr>)
         in if index < len then
              (case read_should_stop en AfterItem w2 of
                 (halt, w3, e3) \<Rightarrow>
                   (t', w3, e1 @ e2 @ e3 @
                      (if \<not> halt then [Log INFO (WaitingFor (delay st)), Sleep (delay st)] else [])))
            else (t', w2, e1 @ e2)))"

text \<open>The loop \<open>for index, url in enumerate(urls, start=1)\<close>; \<open>len\<close> is \<open>len(urls)\<close>.\<close>

fun item_loop ::
  "env \<Rightarrow> settings \<Rightarrow> nat \<Rightarrow> (nat \<times> string) list \<Rightarrow> tally \<Rightarrow> world \<Rightarrow> tally \<times> world \<times> event list" where
  "item_loop en st len [] t w = (t, w, [])"
| "item_loop en st len ((index, url) # rest) t w =
    (case read_should_stop en ItemStart w of
       (halt, w1, e1) \<Rightarrow>
        if halt then (t, w1, e1 @ [Log WARNING StoppedByUser])
        else
          (case process_item en st len index url t w1 of
             (t', w2, e2) \<Rightarrow>
               (case item_loop en st len rest t' w2 of
                  (t'', w3, e3) \<Rightarrow> (t'', w3, e1 @ e2 @ e3))))"

definition enumerate1 :: "'a list \<Rightarrow> (nat \<times> 'a) list" where
  "enumerate1 xs = zip [1..<Suc (length xs)] xs"

subsection \<open>Choice of the browser engine\<close>

text \<open>
  \<open>str.lower\<close> on the letters A to Z; no other character becomes \<open>z\<close>, \<open>e\<close> or
  \<open>n\<close> when lowered, which is all that the test below looks at.
\<close>

definition lower_char :: "char \<Rightarrow> char" where
  "lower_char c =
    (case map_of (zip ''ABCDEFGHIJKLMNOPQRSTUVWXYZ'' ''abcdefghijklmnopqrstuvwxyz'') c of
       Some d \<Rightarrow> d
     | None \<Rightarrow> c)"

definition py_lower :: "string \<Rightarrow> string" where
  "py_lower s = map lower_char s"

text \<open>Python's \<open>sub in s\<close> on strings.\<close>

fun contains :: "string \<Rightarrow> string \<Rightarrow> bool" where
  "contains sub [] = (sub = [])"
| "contains sub (c # cs) = (take (length sub) (c # cs) = sub \<or> contains sub cs)"

text \<open>
  The condition chain in front of the three \<open>launch\<close> calls; an empty string is false
  in Python, so an empty path never selects anything.
\<close>

definition select_engine :: "string \<Rightarrow> string \<Rightarrow> engine_family" where
  "select_engine btype custom =
    (if btype = ''Firefox'' \<or> (custom \<noteq> [] \<and> contains ''zen'' (py_lower custom)) then Firefox
     else if btype = ''WebKit'' then WebKit
     else Chromium)"

text \<open>The dictionary \<open>launch_options\<close> as it is when \<open>launch\<close> is called.\<close>

definition make_launch_options :: "env \<Rightarrow> settings \<Rightarrow> launch_options" where
  "make_launch_options en st =
    (let opts = \<lparr>opt_headless = headless st, opt_slow_mo = 100, opt_executable_path = None\<rparr>
     in if custom_browser_path st \<noteq> [] \<and> path_exists en (custom_browser_path st)
        then opts\<lparr>opt_executable_path := Some (custom_browser_path st)\<rparr>
        else opts)"

text \<open>
  From \<open>sync_playwright()\<close> to \<open>context.new_page()\<close>: the exception raised, if any,
  and the events up to there.
\<close>

definition open_session :: "env \<Rightarrow> settings \<Rightarrow> exn option \<times> event list" where
  "open_session en st =
    (case playwright_raises en of
       Some x \<Rightarrow> (Some x, [StartPlaywright])
     | None \<Rightarrow>
        (let opts = make_launch_options en st;
             family = select_engine (browser_type st) (custom_browser_path st);
             e1 = [StartPlaywright, Log INFO LaunchingBrowser] @
                  (if custom_browser_path st \<noteq> [] \<and> path_exists en (custom_browser_path st)
                   then [Log INFO (UsingCustomBrowser (custom_browser_path st))] else []) @
                  [Launch family opts]
         in case launch_raises en family opts of
              Some x \<Rightarrow> (Some x, e1)
            | None \<Rightarrow>
               (case new_context_raises en of
                  Some x \<Rightarrow> (Some x, e1 @ [NewContext])
                | None \<Rightarrow>
                   (case new_page_raises en of
                      Some x \<Rightarrow> (Some x, e1 @ [NewContext, NewPage])
                    | None \<Rightarrow> (None, e1 @ [NewContext, NewPage])))))"

text \<open>From \<open>Closing browser...\<close> to \<open>browser.close()\<close>.\<close>

definition close_session :: "env \<Rightarrow> exn option \<times> event list" where
  "close_session en =
    (case close_context_raises en of
       Some x \<Rightarrow> (Some x, [Log INFO ClosingBrowser, CloseContext])
     | None \<Rightarrow>
        (case close_browser_raises en of
           Some x \<Rightarrow> (Some x, [Log INFO ClosingBrowser, CloseContext, CloseBrowser])
         | None \<Rightarrow> (None, [Log INFO ClosingBrowser, CloseContext, CloseBrowser])))"

subsection \<open>The whole run\<close>

text \<open>
  The body of the \<open>try\<close> in \<open>run\<close>: the exception that leaves it, if any, and the local
  counters as they are at that moment.
\<close>

definition session ::
  "env \<Rightarrow> string list \<Rightarrow> settings \<Rightarrow> world \<Rightarrow> exn option \<times> tally \<times> world \<times> event list" where
  "session en urls st w =
    (let t0 = \<lparr>successful = 0, failed = 0, failed_urls = []\<rparr> in
     case open_session en st of
       (Some x, e1) \<Rightarrow> (Some x, t0, w, e1)
     | (None, e1) \<Rightarrow>
        (case item_loop en st (length urls) (enumerate1 urls) t0 w of
           (t, w2, e2) \<Rightarrow>
             (case close_session en of
                (raised, e3) \<Rightarrow> (raised, t, w2, e1 @ e2 @ e3))))"

text \<open>The log lines before the \<open>try\<close> and after it.\<close>

definition banner :: "string list \<Rightarrow> settings \<Rightarrow> event list" where
  "banner urls st =
    [Log INFO Rule50, Log INFO StartingDownloads, Log INFO (UrlsToProcess (length urls)),
     Log INFO (DownloadFolder (download_folder st)), Log INFO (ButtonSelector (selector st)),
     Log INFO (BrowserLine (browser_type st) (custom_browser_path st)), Log INFO Rule50]"

definition summary :: "nat \<Rightarrow> tally \<Rightarrow> event list" where
  "summary len t =
    [Log INFO Rule50, Log INFO DownloadSummary, Log INFO Rule50,
     Log INFO (Totals len (successful t) (failed t))] @
    (if failed_urls t \<noteq> []
     then Log INFO FailedUrlsHeader # map (\<lambda>url. Log INFO (FailedUrl url)) (failed_urls t)
     else []) @
    [Log INFO Rule50, Log INFO Done]"

text \<open>
  The two assignments at the top of \<open>run\<close>. A call of \<open>stop()\<close> that the controlling
  thread has made before them comes first and is overwritten.
\<close>

definition enter_run :: "env \<Rightarrow> world \<Rightarrow> world \<times> event list" where
  "enter_run en w =
    (let called = stop_calls en (accesses w);
         w0 = (if called then stop w else w)
     in (w0\<lparr>is_running := True, should_stop := False, accesses := Suc (accesses w)\<rparr>,
         (if called then [StopRequested] else []) @ [FlagReset]))"

text \<open>
  \<open>run\<close>. After the two assignments it creates the folder outside any \<open>try\<close> (an
  exception there leaves \<open>run\<close>, with \<open>is_running\<close> still set), runs the session, logs
  an exception that left it, logs the summary and returns the two counters.
\<close>

definition run ::
  "env \<Rightarrow> string list \<Rightarrow> settings \<Rightarrow> world \<Rightarrow> (exn + nat \<times> nat) \<times> world \<times> event list" where
  "run en urls st w =
    (case enter_run en w of
       (w1, e0) \<Rightarrow>
        (case mkdir_raises en of
           Some x \<Rightarrow> (Inl x, w1, e0 @ [Mkdir (download_folder st)])
         | None \<Rightarrow>
            (case session en urls st w1 of
               (raised, t, w2, e2) \<Rightarrow>
                 (Inr (successful t, failed t), w2\<lparr>is_running := False\<rparr>,
                  e0 @ [Mkdir (download_folder st)] @ banner urls st @ e2 @
                  (case raised of
                     Some x \<Rightarrow> [Log ERROR (BrowserError (str_of_exn x))]
                   | None \<Rightarrow> []) @
                  summary (length urls) t))))"

section \<open>Observations on a run\<close>

text \<open>A call of \<open>download_file\<close> starts with its \<open>Opening\<close> line.\<close>

fun is_attempt_start :: "event \<Rightarrow> bool" where
  "is_attempt_start (Log l (AttemptOpening a m u)) = True"
| "is_attempt_start e = False"

definition attempts :: "event list \<Rightarrow> nat" where
  "attempts ev = length (filter is_attempt_start ev)"

text \<open>An item is processed when the body of the loop over the addresses is entered.\<close>

fun is_processing :: "event \<Rightarrow> bool" where
  "is_processing (Log l (ProcessingUrl i n)) = True"
| "is_processing e = False"

definition processed :: "event list \<Rightarrow> nat" where
  "processed ev = length (filter is_processing ev)"

text \<open>The engines that were launched, in order.\<close>

fun launched :: "event list \<Rightarrow> engine_family list" where
  "launched [] = []"
| "launched (Launch f opts # es) = f # launched es"
| "launched (e # es) = launched es"

text \<open>The warning of \<open>download_file\<close> for a selector that matches nothing.\<close>

fun is_not_found :: "event \<Rightarrow> bool" where
  "is_not_found (Log WARNING (ButtonNotFound s)) = True"
| "is_not_found e = False"

fun is_click_or_save :: "event \<Rightarrow> bool" where
  "is_click_or_save (ExpectDownloadClick s t) = True"
| "is_click_or_save (SaveAs d f) = True"
| "is_click_or_save e = False"

text \<open>A page that loads and on which the selector matches no element.\<close>

definition selector_missing :: "page_script \<Rightarrow> bool" where
  "selector_missing ps \<longleftrightarrow>
     goto_raises ps = None \<and> wait_raises ps = None \<and> locator_count ps = Inr 0"

subsection \<open>The engine choice in the words of the specification\<close>

text \<open>
  The specification classifies a custom path by its file name. \<open>spec_filename\<close> is the
  part of a path after its last separator, slash or backslash, and \<open>spec_select_engine\<close>
  is the choice that looks at that part only. Both follow the specification, not the
  source, and are here to be compared with \<open>select_engine\<close>.
\<close>

definition spec_filename :: "string \<Rightarrow> string" where
  "spec_filename p = rev (takeWhile (\<lambda>c. c \<noteq> CHR ''/'' \<and> c \<noteq> CHR 0x5C) (rev p))"

definition spec_select_engine :: "string \<Rightarrow> string \<Rightarrow> engine_family" where
  "spec_select_engine btype custom =
    (if contains ''zen'' (py_lower (spec_filename custom)) then Firefox
     else if btype = ''Firefox'' then Firefox
     else if btype = ''WebKit'' then WebKit
     else Chromium)"

subsection \<open>Example inputs\<close>

definition ok_page :: page_script where
  "ok_page = \<lparr>goto_raises = None, wait_raises = None, locator_count = Inr 1,
     click_download = Inr ''file.bin'', save_raises = None, saved_exists = True, saved_size = Inr 10\<rparr>"

definition timeout_page :: page_script where
  "timeout_page = ok_page\<lparr>goto_raises := Some (PlaywrightTimeoutError ''Timeout 30000ms exceeded'')\<rparr>"

definition missing_page :: page_script where
  "missing_page = ok_page\<lparr>locator_count := Inr 0\<rparr>"

definition quiet_env :: env where
  "quiet_env = \<lparr>stop_calls = (\<lambda>k. False), pages = (\<lambda>n. ok_page),
     path_exists = (\<lambda>p. False), mkdir_raises = None, playwright_raises = None,
     launch_raises = (\<lambda>f opts. None), new_context_raises = None, new_page_raises = None,
     close_context_raises = None, close_browser_raises = None\<rparr>"

definition example_settings :: settings where
  "example_settings = \<lparr>download_folder = ''downloads'', selector = ''button.download-btn'',
     max_retries = 2, delay = 2, headless = False, page_timeout = 30, download_timeout = 60,
     browser_type = ''Chromium'', custom_browser_path = []\<rparr>"

definition fresh_world :: world where
  "fresh_world = \<lparr>is_running = False, should_stop = False, accesses = 0, calls = 0\<rparr>"

text \<open>The notice that \<open>run\<close> logs before it sleeps and tries an address again.\<close>

fun is_retry_wait :: "event \<Rightarrow> bool" where
  "is_retry_wait (Log l (RetryingIn d)) = True"
| "is_retry_wait e = False"

definition retry_waits :: "event list \<Rightarrow> nat" where
  "retry_waits ev = length (filter is_retry_wait ev)"

text \<open>More example inputs: a browser that cannot be launched, a page that fails twice, a page without the button.\<close>

definition failing_launch_env :: env where
  "failing_launch_env =
     quiet_env\<lparr>launch_raises := (\<lambda>f opts. Some (OtherException ''Executable does not exist''))\<rparr>"

definition flaky_env :: env where
  "flaky_env = quiet_env\<lparr>pages := (\<lambda>n. if n < 2 then timeout_page else ok_page)\<rparr>"

definition missing_env :: env where
  "missing_env = quiet_env\<lparr>pages := (\<lambda>n. missing_page)\<rparr>"

definition empty_tally :: tally where
  "empty_tally = \<lparr>successful = 0, failed = 0, failed_urls = []\<rparr>"

text \<open>
  The value of the flag right after an event that reads or writes it: \<open>stop()\<close> sets it,
  the assignment in \<open>run\<close> clears it, a check reports it.
\<close>

fun flag_value :: "event \<Rightarrow> bool option" where
  "flag_value StopRequested = Some True"
| "flag_value FlagReset = Some False"
| "flag_value (Checked cp v) = Some v"
| "flag_value e = None"

text \<open>The flag after a sequence of events that started with the flag at \<open>cur\<close>.\<close>

fun flag_after :: "bool \<Rightarrow> event list \<Rightarrow> bool" where
  "flag_after cur [] = cur"
| "flag_after cur (e # es) = flag_after (case flag_value e of None \<Rightarrow> cur | Some v \<Rightarrow> v) es"

text \<open>
  The flag never goes from set to clear in a sequence of events, and where it goes from
  clear to set the event is a call of \<open>stop()\<close>.
\<close>

fun monotone_from :: "bool \<Rightarrow> event list \<Rightarrow> bool" where
  "monotone_from cur [] = True"
| "monotone_from cur (e # es) =
    (case flag_value e of
       None \<Rightarrow> monotone_from cur es
     | Some v \<Rightarrow> (cur \<longrightarrow> v) \<and> (v \<and> \<not> cur \<longrightarrow> e = StopRequested) \<and> monotone_from v es)"

text \<open>The two waits of \<open>run\<close>, before a retry and between two addresses.\<close>

fun is_sleep :: "event \<Rightarrow> bool" where
  "is_sleep (Sleep d) = True"
| "is_sleep e = False"

text \<open>An attempt starts, an item starts, or the worker goes to sleep.\<close>

definition busy :: "event \<Rightarrow> bool" where
  "busy e \<longleftrightarrow> is_attempt_start e \<or> is_processing e \<or> is_sleep e"

text \<open>
  No attempt starts, no item starts and the worker does not sleep after the point where the
  trace has the flag set, which is the access that first meets a call of \<open>stop()\<close>.
\<close>

fun stop_respected :: "bool \<Rightarrow> event list \<Rightarrow> bool" where
  "stop_respected cur [] = True"
| "stop_respected cur (e # es) =
    ((cur \<longrightarrow> \<not> busy e) \<and>
     stop_respected (case flag_value e of None \<Rightarrow> cur | Some v \<Rightarrow> v) es)"

text \<open>The events of a run that come after its assignment to the flag.\<close>

definition after_reset :: "event list \<Rightarrow> event list" where
  "after_reset ev = tl (dropWhile (\<lambda>e. e \<noteq> FlagReset) ev)"

definition flagless :: "event list \<Rightarrow> bool" where
  "flagless ev \<longleftrightarrow> (\<forall>e\<in>set ev. flag_value e = None)"

definition flags_ok :: "world \<Rightarrow> world \<Rightarrow> event list \<Rightarrow> bool" where
  "flags_ok w w' ev \<longleftrightarrow>
     monotone_from (should_stop w) ev \<and> flag_after (should_stop w) ev = should_stop w' \<and>
     stop_respected (should_stop w) ev"

definition quiet :: "event list \<Rightarrow> bool" where
  "quiet ev \<longleftrightarrow> (\<forall>e\<in>set ev. flag_value e = None \<and> \<not> busy e)"

text \<open>
  Example inputs for the flag: a controlling thread that calls \<open>stop()\<close> just before
  the worker's access number \<open>n\<close> to the flag and at no other moment; the same with
  pages that all time out; two addresses; and the engine as a stopped run leaves it.
\<close>

definition stop_at :: "nat \<Rightarrow> env" where
  "stop_at n = quiet_env\<lparr>stop_calls := (\<lambda>k. k = n)\<rparr>"

definition late_stop_env :: env where
  "late_stop_env = (stop_at 3)\<lparr>pages := (\<lambda>n. timeout_page)\<rparr>"

definition two_urls :: "string list" where
  "two_urls = [''https://a.test/x'', ''https://a.test/y'']"

definition stopped_world :: world where
  "stopped_world = \<lparr>is_running = False, should_stop = True, accesses = 2, calls = 0\<rparr>"

text \<open>What the run with \<open>late_stop_env\<close> does before the call of \<open>stop()\<close> and after it.\<close>

definition late_stop_before :: "event list" where
  "late_stop_before =
     [FlagReset, Mkdir ''downloads'', Log INFO Rule50,
      Log INFO StartingDownloads, Log INFO (UrlsToProcess 2),
      Log INFO (DownloadFolder ''downloads''),
      Log INFO (ButtonSelector ''button.download-btn''),
      Log INFO (BrowserLine ''Chromium'' []), Log INFO Rule50, StartPlaywright,
      Log INFO LaunchingBrowser,
      Launch Chromium \<lparr>opt_headless = False, opt_slow_mo = 100, opt_executable_path = None\<rparr>,
      NewContext, NewPage, Checked ItemStart False, Log INFO Rule40,
      Log INFO (ProcessingUrl 1 2), Checked BeforeAttempt False,
      Log INFO (AttemptOpening 1 3 ''https://a.test/x''),
      Goto ''https://a.test/x'' 30000,
      Log ERROR (TimeoutMsg ''Timeout 30000ms exceeded''),
      Log INFO (RetryingIn 2), Sleep 2]"

definition late_stop_after :: "event list" where
  "late_stop_after =
     [Checked BeforeAttempt True, Checked AfterItem True,
      Checked ItemStart True, Log WARNING StoppedByUser,
      Log INFO ClosingBrowser, CloseContext, CloseBrowser, Log INFO Rule50,
      Log INFO DownloadSummary, Log INFO Rule50, Log INFO (Totals 2 0 1),
      Log INFO FailedUrlsHeader, Log INFO (FailedUrl ''https://a.test/x''),
      Log INFO Rule50, Log INFO Done]"

text \<open>
  The three events in front of which \<open>run\<close> reads the flag, each with the place of the
  read: the first line of an attempt, the rule that opens an item, and the notice of the
  delay between two items.
\<close>

fun checked_before :: "event \<Rightarrow> checkpoint option" where
  "checked_before (Log l (AttemptOpening a m u)) = Some BeforeAttempt"
| "checked_before (Log l Rule40) = Some ItemStart"
| "checked_before (Log l (WaitingFor d)) = Some AfterItem"
| "checked_before e = None"

text \<open>
  Each of these events comes right after a read of the flag at its place that found the
  flag clear; \<open>prev\<close> is the event before the list, if there is one.
\<close>

fun guarded :: "event option \<Rightarrow> event list \<Rightarrow> bool" where
  "guarded prev [] = True"
| "guarded prev (e # es) =
    ((case checked_before e of None \<Rightarrow> True | Some cp \<Rightarrow> prev = Some (Checked cp False)) \<and>
     guarded (Some e) es)"

fun last_event :: "event option \<Rightarrow> event list \<Rightarrow> event option" where
  "last_event prev [] = prev"
| "last_event prev (e # es) = last_event (Some e) es"

definition plain :: "event list \<Rightarrow> bool" where
  "plain ev \<longleftrightarrow> (\<forall>e\<in>set ev. checked_before e = None)"

text \<open>The engine as the run on \<open>fresh_world\<close> has it when it enters the first item.\<close>

definition world_at_first_item :: world where
  "world_at_first_item = \<lparr>is_running = True, should_stop = False, accesses = 2, calls = 0\<rparr>"

text \<open>
  The local counters \<open>successful\<close>, \<open>failed\<close> and \<open>failed_urls\<close> of \<open>run\<close> as they
  are when it logs the summary.
\<close>

definition final_tally :: "env \<Rightarrow> string list \<Rightarrow> settings \<Rightarrow> world \<Rightarrow> tally" where
  "final_tally en urls st w = fst (snd (session en urls st (fst (enter_run en w))))"

text \<open>Example input: pages that all time out, and nobody calling \<open>stop()\<close>.\<close>

definition timeout_env :: env where
  "timeout_env = quiet_env\<lparr>pages := (\<lambda>n. timeout_page)\<rparr>"

text \<open>
  The worker's own events: the trace without the calls of \<open>stop()\<close>, which belong to
  the controlling thread. A statement about them does not depend on the moments at which
  the calls were made.
\<close>

definition worker_events :: "event list \<Rightarrow> event list" where
  "worker_events ev = filter (\<lambda>e. e \<noteq> StopRequested) ev"

section \<open>Properties of \<open>download_file\<close>\<close>

text \<open>
  Claim C6. Every call into the browser layer and the file system that \<open>download_file\<close>
  makes is inside its \<open>try\<close>: the navigation \<open>page.goto\<close>, the pause
  \<open>page.wait_for_timeout\<close>, the element lookup \<open>locator(selector).count()\<close>, the click
  inside \<open>expect_download\<close>, the save \<open>download.save_as\<close> and \<open>os.path.getsize\<close>.
  Whichever of them raises \<open>e\<close>, after the ones before it went through, the function
  returns \<open>False\<close>; what it has done is what came before the call, the call, and one log
  line at level \<open>ERROR\<close> with the text of \<open>e\<close>, \<open>Timeout:\<close> for the time-out of the
  library and \<open>Error:\<close> for any other exception. Nothing after the failing call is done.
\<close>

theorem download_file_catches:
  "(goto_raises ps = Some e \<longrightarrow>
      download_file ps url dp sel a r pt dt =
        (False, [Log INFO (AttemptOpening a (r + 1) url), Goto url pt,
                 Log ERROR (except_message e)]))
   \<and> (goto_raises ps = None \<and> wait_raises ps = Some e \<longrightarrow>
      download_file ps url dp sel a r pt dt =
        (False, [Log INFO (AttemptOpening a (r + 1) url), Goto url pt, Log INFO PageLoaded,
                 WaitForTimeout 1000, Log ERROR (except_message e)]))
   \<and> (goto_raises ps = None \<and> wait_raises ps = None \<and> locator_count ps = Inl e \<longrightarrow>
      download_file ps url dp sel a r pt dt =
        (False, [Log INFO (AttemptOpening a (r + 1) url), Goto url pt, Log INFO PageLoaded,
                 WaitForTimeout 1000, LocatorCount sel, Log ERROR (except_message e)]))
   \<and> (goto_raises ps = None \<and> wait_raises ps = None \<and> locator_count ps = Inr (Suc n) \<and>
       click_download ps = Inl e \<longrightarrow>
      download_file ps url dp sel a r pt dt =
        (False, [Log INFO (AttemptOpening a (r + 1) url), Goto url pt, Log INFO PageLoaded,
                 WaitForTimeout 1000, LocatorCount sel, Log INFO FoundButton,
                 ExpectDownloadClick sel dt, Log ERROR (except_message e)]))
   \<and> (goto_raises ps = None \<and> wait_raises ps = None \<and> locator_count ps = Inr (Suc n) \<and>
       click_download ps = Inr f \<and> save_raises ps = Some e \<longrightarrow>
      download_file ps url dp sel a r pt dt =
        (False, [Log INFO (AttemptOpening a (r + 1) url), Goto url pt, Log INFO PageLoaded,
                 WaitForTimeout 1000, LocatorCount sel, Log INFO FoundButton,
                 ExpectDownloadClick sel dt, Log INFO (Downloading f), SaveAs dp f,
                 Log ERROR (except_message e)]))
   \<and> (goto_raises ps = None \<and> wait_raises ps = None \<and> locator_count ps = Inr (Suc n) \<and>
       click_download ps = Inr f \<and> save_raises ps = None \<and> saved_exists ps \<and>
       saved_size ps = Inl e \<longrightarrow>
      download_file ps url dp sel a r pt dt =
        (False, [Log INFO (AttemptOpening a (r + 1) url), Goto url pt, Log INFO PageLoaded,
                 WaitForTimeout 1000, LocatorCount sel, Log INFO FoundButton,
                 ExpectDownloadClick sel dt, Log INFO (Downloading f), SaveAs dp f,
                 Log ERROR (except_message e)]))
   \<and> except_message (PlaywrightTimeoutError m) = TimeoutMsg m
   \<and> except_message (OtherException m) = ErrorMsg m"
  by (simp add: download_file_def download_file_try_def)

theorem download_file_catches_witness:
  "download_file timeout_page ''https://a.test/x'' ''downloads'' ''button'' 1 2 30000 60000 =
     (False, [Log INFO (AttemptOpening 1 3 ''https://a.test/x''), Goto ''https://a.test/x'' 30000,
              Log ERROR (TimeoutMsg ''Timeout 30000ms exceeded'')])
   \<and> download_file (ok_page\<lparr>locator_count := Inl (OtherException ''Target closed'')\<rparr>)
       ''https://a.test/x'' ''downloads'' ''button'' 1 2 30000 60000 =
     (False, [Log INFO (AttemptOpening 1 3 ''https://a.test/x''), Goto ''https://a.test/x'' 30000,
              Log INFO PageLoaded, WaitForTimeout 1000, LocatorCount ''button'',
              Log ERROR (ErrorMsg ''Target closed'')])
   \<and> download_file (ok_page\<lparr>click_download := Inl (PlaywrightTimeoutError ''Timeout 60000ms exceeded'')\<rparr>)
       ''https://a.test/x'' ''downloads'' ''button'' 1 2 30000 60000 =
     (False, [Log INFO (AttemptOpening 1 3 ''https://a.test/x''), Goto ''https://a.test/x'' 30000,
              Log INFO PageLoaded, WaitForTimeout 1000, LocatorCount ''button'',
              Log INFO FoundButton, ExpectDownloadClick ''button'' 60000,
              Log ERROR (TimeoutMsg ''Timeout 60000ms exceeded'')])
   \<and> download_file (ok_page\<lparr>save_raises := Some (OtherException ''Permission denied'')\<rparr>)
       ''https://a.test/x'' ''downloads'' ''button'' 1 2 30000 60000 =
     (False, [Log INFO (AttemptOpening 1 3 ''https://a.test/x''), Goto ''https://a.test/x'' 30000,
              Log INFO PageLoaded, WaitForTimeout 1000, LocatorCount ''button'',
              Log INFO FoundButton, ExpectDownloadClick ''button'' 60000,
              Log INFO (Downloading ''file.bin''), SaveAs ''downloads'' ''file.bin'',
              Log ERROR (ErrorMsg ''Permission denied'')])
   \<and> download_file (ok_page\<lparr>saved_size := Inl (OtherException ''No such file'')\<rparr>)
       ''https://a.test/x'' ''downloads'' ''button'' 1 2 30000 60000 =
     (False, [Log INFO (AttemptOpening 1 3 ''https://a.test/x''), Goto ''https://a.test/x'' 30000,
              Log INFO PageLoaded, WaitForTimeout 1000, LocatorCount ''button'',
              Log INFO FoundButton, ExpectDownloadClick ''button'' 60000,
              Log INFO (Downloading ''file.bin''), SaveAs ''downloads'' ''file.bin'',
              Log ERROR (ErrorMsg ''No such file'')])"
proof -
  let ?u = "''https://a.test/x''" and ?d = "''downloads''" and ?b = "''button''"
  have g: "goto_raises timeout_page = Some (PlaywrightTimeoutError ''Timeout 30000ms exceeded'')"
    by (simp add: timeout_page_def)
  let ?p3 = "ok_page\<lparr>locator_count := Inl (OtherException ''Target closed'')\<rparr>"
  have l: "goto_raises ?p3 = None \<and> wait_raises ?p3 = None \<and>
      locator_count ?p3 = Inl (OtherException ''Target closed'')"
    by (simp add: ok_page_def)
  let ?p4 = "ok_page\<lparr>click_download := Inl (PlaywrightTimeoutError ''Timeout 60000ms exceeded'')\<rparr>"
  have c: "goto_raises ?p4 = None \<and> wait_raises ?p4 = None \<and> locator_count ?p4 = Inr (Suc 0) \<and>
      click_download ?p4 = Inl (PlaywrightTimeoutError ''Timeout 60000ms exceeded'')"
    by (simp add: ok_page_def)
  let ?p5 = "ok_page\<lparr>save_raises := Some (OtherException ''Permission denied'')\<rparr>"
  have s: "goto_raises ?p5 = None \<and> wait_raises ?p5 = None \<and> locator_count ?p5 = Inr (Suc 0) \<and>
      click_download ?p5 = Inr ''file.bin'' \<and> save_raises ?p5 = Some (OtherException ''Permission denied'')"
    by (simp add: ok_page_def)
  let ?p6 = "ok_page\<lparr>saved_size := Inl (OtherException ''No such file'')\<rparr>"
  have z: "goto_raises ?p6 = None \<and> wait_raises ?p6 = None \<and> locator_count ?p6 = Inr (Suc 0) \<and>
      click_download ?p6 = Inr ''file.bin'' \<and> save_raises ?p6 = None \<and> saved_exists ?p6 \<and>
      saved_size ?p6 = Inl (OtherException ''No such file'')"
    by (simp add: ok_page_def)
  note t1 = download_file_catches[where ps = timeout_page and url = ?u and dp = ?d and sel = ?b
      and a = 1 and r = 2 and pt = 30000 and dt = 60000, THEN conjunct1, THEN mp, OF g]
  note t3 = download_file_catches[where ps = ?p3 and url = ?u and dp = ?d and sel = ?b
      and a = 1 and r = 2 and pt = 30000 and dt = 60000,
      THEN conjunct2, THEN conjunct2, THEN conjunct1, THEN mp, OF l]
  note t4 = download_file_catches[where ps = ?p4 and url = ?u and dp = ?d and sel = ?b
      and a = 1 and r = 2 and pt = 30000 and dt = 60000,
      THEN conjunct2, THEN conjunct2, THEN conjunct2, THEN conjunct1, THEN mp, OF c]
  note t5 = download_file_catches[where ps = ?p5 and url = ?u and dp = ?d and sel = ?b
      and a = 1 and r = 2 and pt = 30000 and dt = 60000,
      THEN conjunct2, THEN conjunct2, THEN conjunct2, THEN conjunct2, THEN conjunct1, THEN mp, OF s]
  note t6 = download_file_catches[where ps = ?p6 and url = ?u and dp = ?d and sel = ?b
      and a = 1 and r = 2 and pt = 30000 and dt = 60000,
      THEN conjunct2, THEN conjunct2, THEN conjunct2, THEN conjunct2, THEN conjunct2,
      THEN conjunct1, THEN mp, OF z]
  from t1 t3 t4 t5 t6 show ?thesis by simp
qed

section \<open>Properties of the engine choice\<close>

lemma contains_append: "contains sub ys \<Longrightarrow> contains sub (xs @ ys)"
  by (induction xs) auto

lemma spec_filename_suffix: "\<exists>d. p = d @ spec_filename p"
proof -
  let ?P = "\<lambda>c. c \<noteq> CHR ''/'' \<and> c \<noteq> CHR 0x5C"
  have "rev (rev p) = rev (takeWhile ?P (rev p) @ dropWhile ?P (rev p))"
    by (simp only: takeWhile_dropWhile_id)
  then have "p = rev (dropWhile ?P (rev p)) @ rev (takeWhile ?P (rev p))"
    by (simp only: rev_rev_ident rev_append)
  then show ?thesis unfolding spec_filename_def by blast
qed

lemma contains_filename:
  assumes "contains sub (py_lower (spec_filename p))"
  shows "contains sub (py_lower p)"
proof -
  obtain d where "p = d @ spec_filename p" using spec_filename_suffix by blast
  then have "py_lower p = py_lower d @ py_lower (spec_filename p)"
    by (metis map_append py_lower_def)
  then show ?thesis using assms by (simp add: contains_append)
qed

lemma launched_append: "launched (xs @ ys) = launched xs @ launched ys"
  by (induction xs rule: launched.induct) auto

lemma launched_open_session:
  "playwright_raises en = None \<Longrightarrow>
   launched (snd (open_session en st)) = [select_engine (browser_type st) (custom_browser_path st)]"
  by (simp add: open_session_def Let_def launched_append split: option.splits)

text \<open>
  Claim C8, as the code has it. With a custom path given, the one engine that
  \<open>run\<close> launches is Firefox exactly when the browser type is \<open>Firefox\<close> or the
  lowered path has \<open>zen\<close> anywhere in it, directory part included; otherwise it is WebKit
  for the browser type \<open>WebKit\<close> and Chromium for any other. Whether the file exists
  plays no part: \<open>path_exists\<close> does not occur on the right. A file name with \<open>zen\<close>
  in it is one way to get Firefox.
\<close>

theorem engine_choice:
  assumes "custom_browser_path st \<noteq> []" and "playwright_raises en = None"
  shows "launched (snd (open_session en st)) =
           [if browser_type st = ''Firefox'' \<or> contains ''zen'' (py_lower (custom_browser_path st))
            then Firefox
            else if browser_type st = ''WebKit'' then WebKit else Chromium]
         \<and> (contains ''zen'' (py_lower (spec_filename (custom_browser_path st)))
              \<longrightarrow> launched (snd (open_session en st)) = [Firefox])"
  using assms contains_filename[of "''zen''" "custom_browser_path st"]
  by (auto simp add: launched_open_session select_engine_def)

theorem engine_choice_witness:
  "custom_browser_path (example_settings\<lparr>custom_browser_path := ''/opt/Zen/zen.exe''\<rparr>) \<noteq> []
   \<and> playwright_raises quiet_env = None
   \<and> contains ''zen'' (py_lower (spec_filename ''/opt/Zen/zen.exe''))
   \<and> launched (snd (open_session quiet_env (example_settings\<lparr>custom_browser_path := ''/opt/Zen/zen.exe''\<rparr>))) = [Firefox]"
proof -
  let ?st = "example_settings\<lparr>custom_browser_path := ''/opt/Zen/zen.exe''\<rparr>"
  have h1: "custom_browser_path ?st \<noteq> []" by simp
  have h2: "playwright_raises quiet_env = None" by (simp add: quiet_env_def)
  have h3: "contains ''zen'' (py_lower (spec_filename (custom_browser_path ?st)))"
    by (simp add: spec_filename_def py_lower_def lower_char_def)
  have "launched (snd (open_session quiet_env ?st)) = [Firefox]"
    using engine_choice[OF h1 h2, THEN conjunct2, THEN mp, OF h3] .
  moreover have "contains ''zen'' (py_lower (spec_filename ''/opt/Zen/zen.exe''))"
    using h3 by simp
  ultimately show ?thesis using h1 h2 by simp
qed

text \<open>
  The claim as worded fails for a path whose directory has \<open>zen\<close> in it and whose file
  name has not: with the browser type \<open>Chromium\<close> the code chooses Firefox, the
  file-name rule Chromium.
\<close>

theorem engine_choice_counterexample:
  "select_engine ''Chromium'' ''/opt/zen/chrome'' = Firefox
   \<and> spec_filename ''/opt/zen/chrome'' = ''chrome''
   \<and> spec_select_engine ''Chromium'' ''/opt/zen/chrome'' = Chromium"
  by (simp add: select_engine_def spec_select_engine_def spec_filename_def py_lower_def lower_char_def)

section \<open>Counting attempts, items and retry notices\<close>

lemma attempts_simps [simp]:
  "attempts [] = 0"
  "attempts (e # es) = (if is_attempt_start e then 1 else 0) + attempts es"
  "attempts (xs @ ys) = attempts xs + attempts ys"
  by (simp_all add: attempts_def)

lemma processed_simps [simp]:
  "processed [] = 0"
  "processed (e # es) = (if is_processing e then 1 else 0) + processed es"
  "processed (xs @ ys) = processed xs + processed ys"
  by (simp_all add: processed_def)

lemma retry_waits_simps [simp]:
  "retry_waits [] = 0"
  "retry_waits (e # es) = (if is_retry_wait e then 1 else 0) + retry_waits es"
  "retry_waits (xs @ ys) = retry_waits xs + retry_waits ys"
  by (simp_all add: retry_waits_def)

lemma except_message_plain [simp]:
  "\<not> is_attempt_start (Log l (except_message e))"
  "\<not> is_processing (Log l (except_message e))"
  "\<not> is_retry_wait (Log l (except_message e))"
  by (cases e; simp)+

lemma download_file_counts:
  "attempts (snd (download_file ps url dp sel a r pt dt)) = 1"
  "processed (snd (download_file ps url dp sel a r pt dt)) = 0"
  "retry_waits (snd (download_file ps url dp sel a r pt dt)) = 0"
  by (simp_all add: download_file_def download_file_try_def Let_def
        split: option.splits sum.splits exn.splits)

lemma open_session_counts:
  "attempts (snd (open_session en st)) = 0"
  "processed (snd (open_session en st)) = 0"
  "retry_waits (snd (open_session en st)) = 0"
  by (simp_all add: open_session_def Let_def split: option.splits)

lemma close_session_counts:
  "attempts (snd (close_session en)) = 0"
  "processed (snd (close_session en)) = 0"
  "retry_waits (snd (close_session en)) = 0"
  by (simp_all add: close_session_def split: option.splits)

lemma map_FailedUrl_counts:
  "attempts (map (\<lambda>url. Log INFO (FailedUrl url)) us) = 0"
  "processed (map (\<lambda>url. Log INFO (FailedUrl url)) us) = 0"
  "retry_waits (map (\<lambda>url. Log INFO (FailedUrl url)) us) = 0"
  by (induction us) simp_all

lemma summary_counts:
  "attempts (summary n t) = 0"
  "processed (summary n t) = 0"
  "retry_waits (summary n t) = 0"
  by (simp_all add: summary_def map_FailedUrl_counts)

lemma banner_counts:
  "attempts (banner urls st) = 0"
  "processed (banner urls st) = 0"
  "retry_waits (banner urls st) = 0"
  by (simp_all add: banner_def)

lemma enter_run_counts:
  "attempts (snd (enter_run en w)) = 0"
  "processed (snd (enter_run en w)) = 0"
  "retry_waits (snd (enter_run en w)) = 0"
  by (simp_all add: enter_run_def Let_def)

lemma enter_run_world:
  "should_stop (fst (enter_run en w)) = False"
  "accesses (fst (enter_run en w)) = Suc (accesses w)"
  "calls (fst (enter_run en w)) = calls w"
  by (simp_all add: enter_run_def Let_def stop_def)

lemma read_no_stop:
  "\<not> stop_calls en (accesses w) \<Longrightarrow> \<not> should_stop w \<Longrightarrow>
   read_should_stop en cp w = (False, w\<lparr>accesses := Suc (accesses w)\<rparr>, [Checked cp False])"
  by (simp add: read_should_stop_def)

lemma run_returns:
  assumes "mkdir_raises en = None" and "enter_run en w = (w1, e0)"
    and "session en urls st w1 = (raised, t, w2, e2)"
  shows "run en urls st w =
    (Inr (successful t, failed t), w2\<lparr>is_running := False\<rparr>,
     e0 @ [Mkdir (download_folder st)] @ banner urls st @ e2 @
     (case raised of Some x \<Rightarrow> [Log ERROR (BrowserError (str_of_exn x))] | None \<Rightarrow> []) @
     summary (length urls) t)"
  using assms by (simp add: run_def)

lemma session_opened:
  assumes "open_session en st = (None, e1)"
    and "item_loop en st (length urls) (enumerate1 urls)
           \<lparr>successful = 0, failed = 0, failed_urls = []\<rparr> w = (t, w2, e2)"
    and "close_session en = (raised, e3)"
  shows "session en urls st w = (raised, t, w2, e1 @ e2 @ e3)"
  using assms by (simp add: session_def)

lemma session_not_opened:
  assumes "open_session en st = (Some x, e1)"
  shows "session en urls st w = (Some x, \<lparr>successful = 0, failed = 0, failed_urls = []\<rparr>, w, e1)"
  using assms by (simp add: session_def)

section \<open>Properties of \<open>run\<close>\<close>

text \<open>
  Claim C7. When the folder can be created and opening the browser session raises \<open>x\<close>,
  at the start of the library, at the launch, or when the context or the page is made,
  \<open>run\<close> returns zero successes and zero failures. What it does is exactly: the two
  assignments, the folder, the banner, the part of the opening that went through, one
  \<open>ERROR\<close> line with the exception, and the summary with both totals 0 and no failed
  address. No attempt is made and no item is processed.
\<close>

theorem launch_failure_is_fatal:
  assumes "mkdir_raises en = None" and "open_session en st = (Some x, e1)"
  shows "fst (run en urls st w) = Inr (0, 0)
    \<and> snd (snd (run en urls st w)) =
        snd (enter_run en w) @ [Mkdir (download_folder st)] @ banner urls st @ e1 @
        [Log ERROR (BrowserError (str_of_exn x)),
         Log INFO Rule50, Log INFO DownloadSummary, Log INFO Rule50,
         Log INFO (Totals (length urls) 0 0), Log INFO Rule50, Log INFO Done]
    \<and> attempts (snd (snd (run en urls st w))) = 0
    \<and> processed (snd (snd (run en urls st w))) = 0"
proof -
  obtain w1 e0 where er: "enter_run en w = (w1, e0)" by fastforce
  have e0: "attempts e0 = 0" "processed e0 = 0"
    using er enter_run_counts(1,2)[of en w] by simp_all
  have e1: "attempts e1 = 0" "processed e1 = 0"
    using assms(2) open_session_counts(1,2)[of en st] by simp_all
  show ?thesis
    unfolding run_returns[OF assms(1) er session_not_opened[OF assms(2)]]
    using er e0 e1 by (simp add: summary_def banner_counts)
qed

lemma upt_1_4: "[Suc 0..<4] = [Suc 0, 2, 3]"
  by (simp add: upt_conv_Cons)

text \<open>
  Claim C4. One address, \<open>max_retries = 2\<close>, a session that opens and nobody calling
  \<open>stop()\<close> after the run has started: if the first two calls of \<open>download_file\<close>
  return \<open>False\<close> and the third returns \<open>True\<close>, then \<open>run\<close> returns 1 success
  and 0 failures, and it logs exactly two retry notices in its three attempts.
\<close>

theorem third_attempt_succeeds:
  assumes mk: "mkdir_raises en = None"
    and os: "fst (open_session en st) = None"
    and ns: "\<forall>k. accesses w < k \<longrightarrow> \<not> stop_calls en k"
    and r: "max_retries st = 2"
    and f1: "\<not> fst (attempt en st url (calls w) 1)"
    and f2: "\<not> fst (attempt en st url (Suc (calls w)) 2)"
    and s3: "fst (attempt en st url (Suc (Suc (calls w))) 3)"
  shows "fst (run en [url] st w) = Inr (1, 0)
    \<and> retry_waits (snd (snd (run en [url] st w))) = 2
    \<and> attempts (snd (snd (run en [url] st w))) = 3"
proof -
  obtain e0 where o: "open_session en st = (None, e0)"
    using os by (cases "open_session en st") auto
  obtain raised e3 where cl: "close_session en = (raised, e3)" by fastforce
  obtain w1 r0 where er: "enter_run en w = (w1, r0)" by fastforce
  have w1: "\<not> should_stop w1" "accesses w1 = Suc (accesses w)" "calls w1 = calls w"
    using er enter_run_world[of en w] by simp_all
  obtain a1 where a1: "attempt en st url (calls w) 1 = (False, a1)"
    using f1 by (cases "attempt en st url (calls w) 1") auto
  obtain a2 where a2: "attempt en st url (Suc (calls w)) 2 = (False, a2)"
    using f2 by (cases "attempt en st url (Suc (calls w)) 2") auto
  obtain a3 where a3: "attempt en st url (Suc (Suc (calls w))) 3 = (True, a3)"
    using s3 by (cases "attempt en st url (Suc (Suc (calls w))) 3") auto
  have c: "attempts a1 = 1" "retry_waits a1 = 0" "attempts a2 = 1" "retry_waits a2 = 0"
    "attempts a3 = 1" "retry_waits a3 = 0"
    using a1 a2 a3 download_file_counts(1,3) unfolding attempt_def
    by (metis snd_conv)+
  have n: "\<not> stop_calls en (Suc (accesses w))" "\<not> stop_calls en (Suc (Suc (accesses w)))"
    "\<not> stop_calls en (Suc (Suc (Suc (accesses w))))"
    "\<not> stop_calls en (Suc (Suc (Suc (Suc (accesses w)))))"
    using ns by simp_all
  let ?wa = "w1\<lparr>accesses := Suc (accesses w1)\<rparr>"
  obtain s w' ev where rl: "retry_loop en st url [Suc 0, 2, 3] False ?wa = (s, w', ev)"
    using prod_cases3 by blast
  have rp: "s \<and> retry_waits ev = 2 \<and> attempts ev = 3"
    using rl a1 a2 a3 c n w1 r by (auto simp add: read_should_stop_def stop_def)
  have pi: "process_item en st (Suc 0) (Suc 0) url \<lparr>successful = 0, failed = 0, failed_urls = []\<rparr> ?wa
      = (\<lparr>successful = 1, failed = 0, failed_urls = []\<rparr>, w',
         [Log INFO Rule40, Log INFO (ProcessingUrl (Suc 0) (Suc 0))] @ ev)"
    using rl rp r by (simp add: process_item_def upt_1_4)
  have il: "item_loop en st (length [url]) (enumerate1 [url])
      \<lparr>successful = 0, failed = 0, failed_urls = []\<rparr> w1
      = (\<lparr>successful = 1, failed = 0, failed_urls = []\<rparr>, w',
         [Checked ItemStart False] @ [Log INFO Rule40, Log INFO (ProcessingUrl (Suc 0) (Suc 0))] @ ev)"
    using pi w1 n by (simp add: enumerate1_def read_no_stop)
  have r0: "attempts r0 = 0" "retry_waits r0 = 0"
    using er enter_run_counts(1,3)[of en w] by simp_all
  have e0: "attempts e0 = 0" "retry_waits e0 = 0"
    using o open_session_counts(1,3)[of en st] by simp_all
  have e3: "attempts e3 = 0" "retry_waits e3 = 0"
    using cl close_session_counts(1,3)[of en] by simp_all
  show ?thesis
    unfolding run_returns[OF mk er session_opened[OF o il cl]]
    using rp r0 e0 e3 by (simp add: banner_counts summary_counts split: option.splits)
qed

theorem launch_failure_is_fatal_witness:
  "mkdir_raises failing_launch_env = None
   \<and> open_session failing_launch_env example_settings =
       (Some (OtherException ''Executable does not exist''),
        [StartPlaywright, Log INFO LaunchingBrowser,
         Launch Chromium \<lparr>opt_headless = False, opt_slow_mo = 100, opt_executable_path = None\<rparr>])
   \<and> fst (run failing_launch_env [''https://a.test/x''] example_settings fresh_world) = Inr (0, 0)
   \<and> attempts (snd (snd (run failing_launch_env [''https://a.test/x''] example_settings fresh_world))) = 0"
proof -
  have h1: "mkdir_raises failing_launch_env = None"
    by (simp add: failing_launch_env_def quiet_env_def)
  have h2: "open_session failing_launch_env example_settings =
       (Some (OtherException ''Executable does not exist''),
        [StartPlaywright, Log INFO LaunchingBrowser,
         Launch Chromium \<lparr>opt_headless = False, opt_slow_mo = 100, opt_executable_path = None\<rparr>])"
    by (simp add: open_session_def failing_launch_env_def quiet_env_def example_settings_def
          make_launch_options_def select_engine_def)
  note inst = launch_failure_is_fatal[OF h1 h2, of "[''https://a.test/x'']" fresh_world]
  from inst[THEN conjunct1] inst[THEN conjunct2, THEN conjunct2, THEN conjunct1] h1 h2
  show ?thesis by blast
qed

theorem third_attempt_succeeds_witness:
  "mkdir_raises flaky_env = None
   \<and> fst (open_session flaky_env example_settings) = None
   \<and> max_retries example_settings = 2
   \<and> \<not> fst (attempt flaky_env example_settings ''https://a.test/x'' (calls fresh_world) 1)
   \<and> \<not> fst (attempt flaky_env example_settings ''https://a.test/x'' (Suc (calls fresh_world)) 2)
   \<and> fst (attempt flaky_env example_settings ''https://a.test/x'' (Suc (Suc (calls fresh_world))) 3)
   \<and> fst (run flaky_env [''https://a.test/x''] example_settings fresh_world) = Inr (1, 0)
   \<and> retry_waits (snd (snd (run flaky_env [''https://a.test/x''] example_settings fresh_world))) = 2"
proof -
  have mk: "mkdir_raises flaky_env = None" by (simp add: flaky_env_def quiet_env_def)
  have os: "fst (open_session flaky_env example_settings) = None"
    by (simp add: open_session_def flaky_env_def quiet_env_def Let_def)
  have ns: "\<forall>k. accesses fresh_world < k \<longrightarrow> \<not> stop_calls flaky_env k"
    by (simp add: flaky_env_def quiet_env_def)
  have r: "max_retries example_settings = 2" by (simp add: example_settings_def)
  have f1: "\<not> fst (attempt flaky_env example_settings ''https://a.test/x'' (calls fresh_world) 1)"
    by (simp add: attempt_def download_file_def download_file_try_def flaky_env_def quiet_env_def
          fresh_world_def timeout_page_def ok_page_def)
  have f2: "\<not> fst (attempt flaky_env example_settings ''https://a.test/x'' (Suc (calls fresh_world)) 2)"
    by (simp add: attempt_def download_file_def download_file_try_def flaky_env_def quiet_env_def
          fresh_world_def timeout_page_def ok_page_def)
  have s3: "fst (attempt flaky_env example_settings ''https://a.test/x'' (Suc (Suc (calls fresh_world))) 3)"
    by (simp add: attempt_def download_file_def download_file_try_def flaky_env_def quiet_env_def
          fresh_world_def timeout_page_def ok_page_def)
  from third_attempt_succeeds[OF mk os ns r f1 f2 s3] mk os ns r f1 f2 s3
  show ?thesis by blast
qed

lemma download_file_missing:
  "selector_missing ps \<Longrightarrow>
   download_file ps url dp sel a r pt dt =
     (False, [Log INFO (AttemptOpening a (r + 1) url), Goto url pt, Log INFO PageLoaded,
              WaitForTimeout 1000, LocatorCount sel, Log WARNING (ButtonNotFound sel)])"
  by (simp add: selector_missing_def download_file_def download_file_try_def)

lemma retry_loop_all_missing:
  assumes miss: "\<forall>n. selector_missing (pages en n)"
  shows "\<not> should_stop w \<Longrightarrow> \<forall>k\<ge>accesses w. \<not> stop_calls en k \<Longrightarrow>
    \<exists>w' ev. retry_loop en st url as False w = (False, w', ev) \<and> \<not> should_stop w' \<and>
      accesses w \<le> accesses w' \<and>
      length (filter is_not_found ev) = length as \<and> filter is_click_or_save ev = [] \<and>
      attempts ev = length as"
proof (induction as arbitrary: w)
  case Nil
  then show ?case by simp
next
  case (Cons a as)
  let ?w1 = "w\<lparr>accesses := Suc (accesses w)\<rparr>"
  let ?w2 = "?w1\<lparr>calls := Suc (calls ?w1)\<rparr>"
  have r: "read_should_stop en BeforeAttempt w = (False, ?w1, [Checked BeforeAttempt False])"
    using Cons.prems by (simp add: read_no_stop)
  have "\<not> should_stop ?w2" "\<forall>k\<ge>accesses ?w2. \<not> stop_calls en k"
    using Cons.prems by simp_all
  from Cons.IH[OF this] obtain w' ev where
    rec: "retry_loop en st url as False ?w2 = (False, w', ev)" and
    props: "\<not> should_stop w'" "accesses ?w2 \<le> accesses w'"
      "length (filter is_not_found ev) = length as"
      "filter is_click_or_save ev = []" "attempts ev = length as"
    by blast
  show ?case
    using r rec props miss
    by (simp add: attempt_def download_file_missing)
qed

text \<open>
  Claim C5. An attempt on a page that loads and where the selector matches nothing logs
  the warning and returns \<open>False\<close>; the events are all there is: no click, no save. When
  every page is like that and no stop is requested, the processing of an item makes
  \<open>max_retries + 1\<close> attempts, logs as many such warnings, never clicks or saves, and
  records the address as failed.
\<close>

theorem missing_selector_fails_item:
  "(selector_missing ps \<longrightarrow>
      download_file ps url dp sel a r pt dt =
        (False, [Log INFO (AttemptOpening a (r + 1) url), Goto url pt, Log INFO PageLoaded,
                 WaitForTimeout 1000, LocatorCount sel, Log WARNING (ButtonNotFound sel)]))
   \<and> ((\<forall>n. selector_missing (pages en n)) \<and> (\<forall>k\<ge>accesses w. \<not> stop_calls en k) \<and> \<not> should_stop w \<longrightarrow>
        (case process_item en st len index url t w of
           (t', w', ev) \<Rightarrow>
             failed t' = failed t + 1 \<and> failed_urls t' = failed_urls t @ [url] \<and>
             successful t' = successful t \<and>
             length (filter is_not_found ev) = max_retries st + 1 \<and>
             filter is_click_or_save ev = [] \<and>
             attempts ev = max_retries st + 1))"
proof (intro conjI impI)
  assume "selector_missing ps"
  then show "download_file ps url dp sel a r pt dt =
        (False, [Log INFO (AttemptOpening a (r + 1) url), Goto url pt, Log INFO PageLoaded,
                 WaitForTimeout 1000, LocatorCount sel, Log WARNING (ButtonNotFound sel)])"
    by (rule download_file_missing)
next
  assume h: "(\<forall>n. selector_missing (pages en n)) \<and> (\<forall>k\<ge>accesses w. \<not> stop_calls en k) \<and> \<not> should_stop w"
  define as where "as = [1..<max_retries st + 2]"
  have len: "length as = max_retries st + 1" by (simp add: as_def)
  from h obtain w2 ev where
    rl: "retry_loop en st url as False w = (False, w2, ev)" and
    p: "\<not> should_stop w2" "accesses w \<le> accesses w2"
      "length (filter is_not_found ev) = length as"
      "filter is_click_or_save ev = []" "attempts ev = length as"
    using retry_loop_all_missing[of en w st url as] by blast
  have rd: "read_should_stop en AfterItem w2 =
      (False, w2\<lparr>accesses := Suc (accesses w2)\<rparr>, [Checked AfterItem False])"
    using p h by (simp add: read_no_stop)
  show "case process_item en st len index url t w of
           (t', w', ev) \<Rightarrow>
             failed t' = failed t + 1 \<and> failed_urls t' = failed_urls t @ [url] \<and>
             successful t' = successful t \<and>
             length (filter is_not_found ev) = max_retries st + 1 \<and>
             filter is_click_or_save ev = [] \<and>
             attempts ev = max_retries st + 1"
    unfolding process_item_def as_def[symmetric]
    using rl p rd len by (simp add: Let_def)
qed

theorem missing_selector_fails_item_witness:
  "selector_missing missing_page
   \<and> download_file missing_page ''https://a.test/x'' ''downloads'' ''button'' 1 2 30000 60000 =
        (False, [Log INFO (AttemptOpening 1 3 ''https://a.test/x''), Goto ''https://a.test/x'' 30000,
                 Log INFO PageLoaded, WaitForTimeout 1000, LocatorCount ''button'',
                 Log WARNING (ButtonNotFound ''button'')])
   \<and> (\<forall>n. selector_missing (pages missing_env n))
   \<and> (\<forall>k. \<not> stop_calls missing_env k)
   \<and> \<not> should_stop fresh_world
   \<and> (case process_item missing_env example_settings 1 1 ''https://a.test/x'' empty_tally fresh_world of
        (t', w', ev) \<Rightarrow>
          failed t' = 1 \<and> failed_urls t' = [''https://a.test/x''] \<and> successful t' = 0 \<and>
          length (filter is_not_found ev) = 3 \<and> filter is_click_or_save ev = [] \<and> attempts ev = 3)"
proof -
  have h1: "selector_missing missing_page"
    by (simp add: selector_missing_def missing_page_def ok_page_def)
  have h2: "\<forall>n. selector_missing (pages missing_env n)"
    using h1 by (simp add: missing_env_def quiet_env_def)
  have h3: "\<forall>k\<ge>accesses fresh_world. \<not> stop_calls missing_env k"
    by (simp add: missing_env_def quiet_env_def)
  have h4: "\<not> should_stop fresh_world" by (simp add: fresh_world_def)
  have h5: "\<forall>k. \<not> stop_calls missing_env k" by (simp add: missing_env_def quiet_env_def)
  have r: "max_retries example_settings = 2" by (simp add: example_settings_def)
  have t: "failed empty_tally = 0" "failed_urls empty_tally = []" "successful empty_tally = 0"
    by (simp_all add: empty_tally_def)
  note inst = missing_selector_fails_item[where ps = missing_page and url = "''https://a.test/x''"
      and dp = "''downloads''" and sel = "''button''" and a = 1 and r = 2 and pt = 30000
      and dt = 60000 and en = missing_env and w = fresh_world and st = example_settings
      and len = 1 and index = 1 and t = empty_tally]
  from inst[THEN conjunct1, THEN mp, OF h1]
    inst[THEN conjunct2, THEN mp, OF conjI[OF h2 conjI[OF h3 h4]]]
    h1 h2 h4 h5
  show ?thesis by (simp add: r t split: prod.splits)
qed

section \<open>The stop flag\<close>

lemma flag_after_append: "flag_after cur (xs @ ys) = flag_after (flag_after cur xs) ys"
  by (induction xs arbitrary: cur) auto

lemma monotone_from_append:
  "monotone_from cur (xs @ ys) \<longleftrightarrow> monotone_from cur xs \<and> monotone_from (flag_after cur xs) ys"
  by (induction xs arbitrary: cur) (auto split: option.splits)

lemma stop_respected_append:
  "stop_respected cur (xs @ ys) \<longleftrightarrow> stop_respected cur xs \<and> stop_respected (flag_after cur xs) ys"
  by (induction xs arbitrary: cur) auto

lemma flagless_simps [simp]:
  "flagless []"
  "flagless (e # es) \<longleftrightarrow> flag_value e = None \<and> flagless es"
  "flagless (xs @ ys) \<longleftrightarrow> flagless xs \<and> flagless ys"
  by (auto simp: flagless_def)

lemma flagless_flag_after: "flagless ev \<Longrightarrow> flag_after cur ev = cur"
  by (induction ev arbitrary: cur) auto

lemma flagless_monotone: "flagless ev \<Longrightarrow> monotone_from cur ev"
  by (induction ev arbitrary: cur) auto

lemma flagless_respected: "flagless ev \<Longrightarrow> stop_respected False ev"
  by (induction ev) auto

lemma set_flag_stays:
  "monotone_from True ev \<Longrightarrow> flag_after True ev"
  by (induction ev) (auto split: option.splits)

lemma set_flag_quiet:
  "monotone_from True ev \<Longrightarrow> stop_respected True ev \<Longrightarrow> \<forall>e\<in>set ev. \<not> busy e"
  by (induction ev) (auto split: option.splits)

lemma except_message_flagless [simp]: "flag_value (Log l m) = None"
  by simp

lemma download_file_flagless: "flagless (snd (download_file ps url dp sel a r pt dt))"
  by (simp add: download_file_def download_file_try_def Let_def
        split: option.splits sum.splits)

lemma attempt_flagless: "attempt en st url n a = (s, e) \<Longrightarrow> flagless e"
  using download_file_flagless[of "pages en n" url "download_folder st" "selector st" a
      "max_retries st" "page_timeout st * 1000" "download_timeout st * 1000"]
  by (simp add: attempt_def)

lemma read_flags:
  assumes "read_should_stop en cp w = (v, w1, e1)"
  shows "should_stop w1 = v" "monotone_from (should_stop w) e1"
    "flag_after (should_stop w) e1 = v" "stop_respected (should_stop w) e1"
    "calls w1 = calls w" "is_running w1 = is_running w"
  using assms by (auto simp: read_should_stop_def Let_def stop_def busy_def split: if_splits)

lemma flags_ok_append:
  "flags_ok w w1 xs \<Longrightarrow> flags_ok w1 w2 ys \<Longrightarrow> flags_ok w w2 (xs @ ys)"
  by (simp add: flags_ok_def monotone_from_append stop_respected_append flag_after_append)

lemma flags_ok_flagless:
  "flagless ev \<Longrightarrow> \<not> should_stop w \<Longrightarrow> should_stop w' = should_stop w \<Longrightarrow> flags_ok w w' ev"
  by (simp add: flags_ok_def flagless_monotone flagless_flag_after flagless_respected)

lemma flags_ok_quiet:
  "flagless ev \<Longrightarrow> \<forall>e\<in>set ev. \<not> busy e \<Longrightarrow> should_stop w' = should_stop w \<Longrightarrow> flags_ok w w' ev"
  by (induction ev) (auto simp: flags_ok_def)

lemma flags_ok_read: "read_should_stop en cp w = (v, w1, e1) \<Longrightarrow> flags_ok w w1 e1"
  using read_flags[of en cp w v w1 e1] by (simp add: flags_ok_def)

lemma retry_loop_flags:
  "retry_loop en st url as success w = (r, w', ev) \<Longrightarrow> flags_ok w w' ev"
proof (induction as arbitrary: success w r w' ev)
  case Nil
  then show ?case by (simp add: flags_ok_def)
next
  case (Cons a as)
  obtain v w1 e1 where rd: "read_should_stop en BeforeAttempt w = (v, w1, e1)"
    using prod_cases3 by blast
  note f1 = flags_ok_read[OF rd] and v = read_flags(1)[OF rd]
  show ?case
  proof (cases v)
    case True
    then show ?thesis using Cons.prems rd f1 by simp
  next
    case False
    obtain s e2 where at: "attempt en st url (calls w1) a = (s, e2)" by fastforce
    let ?w2 = "w1\<lparr>calls := Suc (calls w1)\<rparr>"
    have f2: "flags_ok w1 ?w2 e2"
      using attempt_flagless[OF at] v False by (simp add: flags_ok_flagless)
    show ?thesis
    proof (cases s)
      case True
      then show ?thesis
        using Cons.prems rd at \<open>\<not> v\<close> flags_ok_append[OF f1 f2] by simp
    next
      case False
      let ?e3 = "if a \<le> max_retries st
                 then [Log INFO (RetryingIn (delay st)), Sleep (delay st)] else []"
      obtain r4 w4 e4 where rec: "retry_loop en st url as s ?w2 = (r4, w4, e4)"
        using prod_cases3 by blast
      have f3: "flags_ok ?w2 ?w2 ?e3" using v \<open>\<not> v\<close> by (simp add: flags_ok_def busy_def)
      have f4: "flags_ok ?w2 w4 e4" using Cons.IH[OF rec] .
      have "ev = e1 @ e2 @ ?e3 @ e4" "w' = w4"
        using Cons.prems rd at \<open>\<not> v\<close> False rec by (simp_all add: Let_def)
      then show ?thesis
        using flags_ok_append[OF f1 flags_ok_append[OF f2 flags_ok_append[OF f3 f4]]] by simp
    qed
  qed
qed

lemma process_item_flags:
  assumes "process_item en st len index url t w = (t', w', ev)" and "\<not> should_stop w"
  shows "flags_ok w w' ev"
proof -
  obtain s w2 e2 where rl: "retry_loop en st url [1..<max_retries st + 2] False w = (s, w2, e2)"
    using prod_cases3 by blast
  have f0: "flags_ok w w [Log INFO Rule40, Log INFO (ProcessingUrl index len)]"
    using assms(2) by (simp add: flags_ok_def)
  note f2 = retry_loop_flags[OF rl]
  show ?thesis
  proof (cases "index < len")
    case False
    then have "ev = [Log INFO Rule40, Log INFO (ProcessingUrl index len)] @ e2" "w' = w2"
      using assms(1) rl by (simp_all add: process_item_def Let_def)
    then show ?thesis using flags_ok_append[OF f0 f2] by simp
  next
    case True
    obtain v w3 e3 where rd: "read_should_stop en AfterItem w2 = (v, w3, e3)"
      using prod_cases3 by blast
    let ?e4 = "if \<not> v then [Log INFO (WaitingFor (delay st)), Sleep (delay st)] else []"
    have f4: "flags_ok w3 w3 ?e4" using read_flags(1)[OF rd] by (auto simp: flags_ok_def busy_def)
    have "ev = [Log INFO Rule40, Log INFO (ProcessingUrl index len)] @ e2 @ e3 @ ?e4" "w' = w3"
      using assms(1) rl rd True by (simp_all add: process_item_def Let_def)
    then show ?thesis
      using flags_ok_append[OF f0 flags_ok_append[OF f2 flags_ok_append[OF flags_ok_read[OF rd] f4]]]
      by simp
  qed
qed

lemma item_loop_flags:
  "item_loop en st len items t w = (t', w', ev) \<Longrightarrow> flags_ok w w' ev"
proof (induction items arbitrary: t w t' w' ev)
  case Nil
  then show ?case by (simp add: flags_ok_def)
next
  case (Cons item items)
  obtain index url where item: "item = (index, url)" by fastforce
  obtain v w1 e1 where rd: "read_should_stop en ItemStart w = (v, w1, e1)"
    using prod_cases3 by blast
  note f1 = flags_ok_read[OF rd] and v = read_flags(1)[OF rd]
  show ?case
  proof (cases v)
    case True
    have f2: "flags_ok w1 w1 [Log WARNING StoppedByUser]" by (simp add: flags_ok_def busy_def)
    have "ev = e1 @ [Log WARNING StoppedByUser]" "w' = w1"
      using Cons.prems rd item True by simp_all
    then show ?thesis
      using flags_ok_append[OF f1 f2] by simp
  next
    case False
    obtain t2 w2 e2 where pi: "process_item en st len index url t w1 = (t2, w2, e2)"
      using prod_cases3 by blast
    obtain t3 w3 e3 where rec: "item_loop en st len items t2 w2 = (t3, w3, e3)"
      using prod_cases3 by blast
    have f2: "flags_ok w1 w2 e2" using process_item_flags[OF pi] v False by simp
    have "ev = e1 @ e2 @ e3" "w' = w3"
      using Cons.prems rd item False pi rec by simp_all
    then show ?thesis
      using flags_ok_append[OF f1 flags_ok_append[OF f2 Cons.IH[OF rec]]] by simp
  qed
qed

lemma quiet_simps [simp]:
  "quiet []"
  "quiet (e # es) \<longleftrightarrow> flag_value e = None \<and> \<not> busy e \<and> quiet es"
  "quiet (xs @ ys) \<longleftrightarrow> quiet xs \<and> quiet ys"
  by (auto simp: quiet_def)

lemma quiet_flags_ok: "quiet ev \<Longrightarrow> should_stop w' = should_stop w \<Longrightarrow> flags_ok w w' ev"
  by (rule flags_ok_quiet) (auto simp: quiet_def flagless_def)

lemma quiet_blocks:
  "quiet (snd (open_session en st))"
  "quiet (snd (close_session en))"
  "quiet (banner urls st)"
  "quiet (map (\<lambda>url. Log INFO (FailedUrl url)) us)"
  "quiet (summary n t)"
  by (auto simp: quiet_def busy_def open_session_def close_session_def banner_def summary_def
        Let_def split: option.splits)

lemma not_busy_counts:
  "\<forall>e\<in>set ev. \<not> busy e \<Longrightarrow> attempts ev = 0 \<and> processed ev = 0 \<and> (\<forall>d. Sleep d \<notin> set ev)"
  by (induction ev) (auto simp: busy_def)

lemma session_flags:
  assumes "session en urls st w = (raised, t, w2, e2)" and "\<not> should_stop w"
  shows "flags_ok w w2 e2"
proof (cases "fst (open_session en st)")
  case None
  then obtain e1 where o: "open_session en st = (None, e1)"
    by (cases "open_session en st") auto
  obtain t' w' ei where il: "item_loop en st (length urls) (enumerate1 urls)
      \<lparr>successful = 0, failed = 0, failed_urls = []\<rparr> w = (t', w', ei)"
    using prod_cases3 by blast
  obtain r3 e3 where cl: "close_session en = (r3, e3)" by fastforce
  have q1: "flags_ok w w e1" using quiet_blocks(1)[of en st] o by (simp add: quiet_flags_ok)
  have q3: "flags_ok w' w' e3" using quiet_blocks(2)[of en] cl by (simp add: quiet_flags_ok)
  have "e2 = e1 @ ei @ e3" "w2 = w'"
    using assms(1) session_opened[OF o il cl] by simp_all
  then show ?thesis
    using flags_ok_append[OF q1 flags_ok_append[OF item_loop_flags[OF il] q3]] by simp
next
  case (Some x)
  then obtain e1 where o: "open_session en st = (Some x, e1)"
    by (cases "open_session en st") auto
  have "e2 = e1" "w2 = w" using assms(1) session_not_opened[OF o] by simp_all
  then show ?thesis using quiet_blocks(1)[of en st] o by (simp add: quiet_flags_ok)
qed

lemma run_after_reset:
  "\<exists>rest. snd (snd (run en urls st w)) = snd (enter_run en w) @ rest \<and>
      flags_ok (fst (enter_run en w)) (fst (snd (run en urls st w))) rest"
proof -
  obtain w1 e0 where er: "enter_run en w = (w1, e0)" by fastforce
  have w1: "\<not> should_stop w1" using er enter_run_world(1)[of en w] by simp
  show ?thesis
  proof (cases "mkdir_raises en")
    case (Some x)
    have "flags_ok w1 w1 [Mkdir (download_folder st)]"
      by (simp add: quiet_flags_ok busy_def)
    then show ?thesis using Some er by (simp add: run_def)
  next
    case None
    obtain raised t w2 e2 where se: "session en urls st w1 = (raised, t, w2, e2)"
      using prod_cases4 by blast
    let ?e3 = "case raised of Some x \<Rightarrow> [Log ERROR (BrowserError (str_of_exn x))] | None \<Rightarrow> []"
    let ?rest = "[Mkdir (download_folder st)] @ banner urls st @ e2 @ ?e3 @ summary (length urls) t"
    have a: "flags_ok w1 w1 ([Mkdir (download_folder st)] @ banner urls st)"
      using quiet_blocks(3)[of urls st] by (simp add: quiet_flags_ok busy_def)
    have b: "flags_ok w2 (w2\<lparr>is_running := False\<rparr>) (?e3 @ summary (length urls) t)"
      using quiet_blocks(5)[of "length urls" t]
      by (auto simp: quiet_flags_ok busy_def split: option.splits)
    have "flags_ok w1 (w2\<lparr>is_running := False\<rparr>) ?rest"
      using flags_ok_append[OF a flags_ok_append[OF session_flags[OF se w1] b]] by simp
    then show ?thesis
      unfolding run_returns[OF None er se] using er by simp
  qed
qed

lemma after_reset_enter_run: "after_reset (snd (enter_run en w) @ rest) = rest"
  by (simp add: after_reset_def enter_run_def Let_def)

lemma quiet_after_set:
  assumes "monotone_from False (pre @ e # post)" and "stop_respected False (pre @ e # post)"
    and "flag_value e = Some True"
  shows "attempts post = 0 \<and> processed post = 0 \<and> (\<forall>d. Sleep d \<notin> set post)"
proof -
  have "flag_after False (pre @ [e]) = True"
    using assms(3) by (simp add: flag_after_append)
  then have "monotone_from True post" "stop_respected True post"
    using assms(1,2) monotone_from_append[of False "pre @ [e]" post]
      stop_respected_append[of False "pre @ [e]" post] by simp_all
  then have "\<forall>x\<in>set post. \<not> busy x" by (rule set_flag_quiet)
  then show ?thesis by (rule not_busy_counts)
qed

lemma item_loop_stopped_at_start:
  assumes "stop_calls en (accesses w)"
  shows "\<exists>w' ev. item_loop en st len items t w = (t, w', ev) \<and> attempts ev = 0 \<and> processed ev = 0"
proof (cases items)
  case Nil
  then show ?thesis by simp
next
  case (Cons item rest)
  obtain index url where "item = (index, url)" by fastforce
  then show ?thesis
    using assms Cons by (simp add: read_should_stop_def stop_def)
qed

text \<open>
  Claim C9, as the code has it. After the assignment at the start of \<open>run\<close> the flag
  only ever goes from clear to set, and it is a call of \<open>stop()\<close> that sets it; the value
  left at the end is the one that this history gives. The assignment itself is the
  exception: it clears the flag whatever it was.
\<close>

theorem flag_monotone_after_reset:
  "monotone_from False (after_reset (snd (snd (run en urls st w))))
   \<and> should_stop (fst (snd (run en urls st w))) =
       flag_after False (after_reset (snd (snd (run en urls st w))))"
proof -
  obtain rest where r: "snd (snd (run en urls st w)) = snd (enter_run en w) @ rest"
    "flags_ok (fst (enter_run en w)) (fst (snd (run en urls st w))) rest"
    using run_after_reset by blast
  then show ?thesis
    using enter_run_world(1)[of en w] by (simp add: after_reset_enter_run flags_ok_def)
qed

lemmas run_eval =
  run_def enter_run_def session_def open_session_def close_session_def banner_def summary_def
  make_launch_options_def select_engine_def enumerate1_def process_item_def read_should_stop_def
  stop_def attempt_def download_file_def download_file_try_def upt_conv_Cons Let_def
  quiet_env_def example_settings_def fresh_world_def ok_page_def timeout_page_def

lemma late_stop_run:
  "run late_stop_env two_urls example_settings fresh_world =
    (Inr (0, 1), \<lparr>is_running = False, should_stop = True, accesses = 6, calls = 1\<rparr>,
     late_stop_before @ StopRequested # late_stop_after)"
  by (simp add: run_eval late_stop_env_def stop_at_def two_urls_def late_stop_before_def
        late_stop_after_def)

lemma early_stop_run:
  "run (stop_at 1) two_urls example_settings fresh_world =
    (Inr (0, 0), \<lparr>is_running = False, should_stop = True, accesses = 2, calls = 0\<rparr>,
     [FlagReset, Mkdir ''downloads'', Log INFO Rule50,
      Log INFO StartingDownloads, Log INFO (UrlsToProcess 2),
      Log INFO (DownloadFolder ''downloads''),
      Log INFO (ButtonSelector ''button.download-btn''),
      Log INFO (BrowserLine ''Chromium'' []), Log INFO Rule50, StartPlaywright,
      Log INFO LaunchingBrowser,
      Launch Chromium \<lparr>opt_headless = False, opt_slow_mo = 100, opt_executable_path = None\<rparr>,
      NewContext, NewPage, StopRequested, Checked ItemStart True, Log WARNING StoppedByUser,
      Log INFO ClosingBrowser, CloseContext, CloseBrowser, Log INFO Rule50,
      Log INFO DownloadSummary, Log INFO Rule50, Log INFO (Totals 2 0 0),
      Log INFO Rule50, Log INFO Done])"
  by (simp add: run_eval stop_at_def two_urls_def)

lemma lost_stop_run:
  "run (stop_at 0) [''https://a.test/x''] example_settings fresh_world =
    (Inr (1, 0), \<lparr>is_running = False, should_stop = False, accesses = 3, calls = 1\<rparr>,
     [StopRequested, FlagReset, Mkdir ''downloads'', Log INFO Rule50,
      Log INFO StartingDownloads, Log INFO (UrlsToProcess 1),
      Log INFO (DownloadFolder ''downloads''),
      Log INFO (ButtonSelector ''button.download-btn''),
      Log INFO (BrowserLine ''Chromium'' []), Log INFO Rule50, StartPlaywright,
      Log INFO LaunchingBrowser,
      Launch Chromium \<lparr>opt_headless = False, opt_slow_mo = 100, opt_executable_path = None\<rparr>,
      NewContext, NewPage, Checked ItemStart False, Log INFO Rule40,
      Log INFO (ProcessingUrl 1 1), Checked BeforeAttempt False,
      Log INFO (AttemptOpening 1 3 ''https://a.test/x''),
      Goto ''https://a.test/x'' 30000, Log INFO PageLoaded, WaitForTimeout 1000,
      LocatorCount ''button.download-btn'', Log INFO FoundButton,
      ExpectDownloadClick ''button.download-btn'' 60000,
      Log INFO (Downloading ''file.bin''), SaveAs ''downloads'' ''file.bin'',
      Log SUCCESS (Complete ''file.bin'' 10), Log INFO ClosingBrowser,
      CloseContext, CloseBrowser, Log INFO Rule50, Log INFO DownloadSummary,
      Log INFO Rule50, Log INFO (Totals 1 1 0), Log INFO Rule50, Log INFO Done])"
  by (simp add: run_eval stop_at_def)

theorem flag_monotone_after_reset_witness:
  "StopRequested \<in> set (after_reset (snd (snd (run late_stop_env two_urls example_settings fresh_world))))
   \<and> monotone_from False (after_reset (snd (snd (run late_stop_env two_urls example_settings fresh_world))))
   \<and> should_stop (fst (snd (run late_stop_env two_urls example_settings fresh_world)))"
proof -
  have "StopRequested \<in> set (after_reset (snd (snd (run late_stop_env two_urls example_settings fresh_world))))"
    by (simp add: late_stop_run after_reset_def late_stop_before_def)
  moreover have "should_stop (fst (snd (run late_stop_env two_urls example_settings fresh_world)))"
    by (simp add: late_stop_run)
  ultimately show ?thesis
    using flag_monotone_after_reset[of late_stop_env two_urls example_settings fresh_world]
    by blast
qed

text \<open>
  The claim as worded fails at the assignment itself. A run that was stopped leaves the
  flag set; the next run on the same engine sets \<open>is_running\<close> and then clears the
  flag, so the flag goes from set to clear within the run.
\<close>

theorem flag_reset_counterexample:
  "fst (snd (run (stop_at 1) two_urls example_settings fresh_world)) = stopped_world
   \<and> should_stop stopped_world
   \<and> is_running (fst (enter_run (stop_at 1) stopped_world))
   \<and> \<not> should_stop (fst (enter_run (stop_at 1) stopped_world))
   \<and> \<not> monotone_from (should_stop stopped_world)
         (snd (snd (run (stop_at 1) two_urls example_settings stopped_world)))"
proof -
  obtain rest where "snd (snd (run (stop_at 1) two_urls example_settings stopped_world)) =
      snd (enter_run (stop_at 1) stopped_world) @ rest"
    using run_after_reset by blast
  then have "snd (snd (run (stop_at 1) two_urls example_settings stopped_world)) = FlagReset # rest"
    by (simp add: enter_run_def stop_at_def stopped_world_def)
  then have "\<not> monotone_from (should_stop stopped_world)
      (snd (snd (run (stop_at 1) two_urls example_settings stopped_world)))"
    by (simp add: stopped_world_def)
  moreover have "fst (snd (run (stop_at 1) two_urls example_settings fresh_world)) = stopped_world"
    using early_stop_run by (simp add: stopped_world_def)
  moreover have "should_stop stopped_world \<and> is_running (fst (enter_run (stop_at 1) stopped_world))
      \<and> \<not> should_stop (fst (enter_run (stop_at 1) stopped_world))"
    by (simp add: stopped_world_def enter_run_def stop_at_def)
  ultimately show ?thesis by blast
qed

section \<open>Items whose retry loop is left on a stop request\<close>

lemma read_counts:
  "read_should_stop en cp w = (v, w1, e1) \<Longrightarrow> attempts e1 = 0 \<and> processed e1 = 0"
  by (auto simp: read_should_stop_def Let_def)

lemma read_seen: "read_should_stop en cp w = (v, w1, e1) \<Longrightarrow> Checked cp' True \<in> set e1 \<Longrightarrow> v"
  by (auto simp: read_should_stop_def Let_def split: if_splits)

lemma attempt_counts:
  "attempt en st url n a = (s, e) \<Longrightarrow> attempts e = 1 \<and> processed e = 0"
  using download_file_counts(1,2)[of "pages en n" url "download_folder st" "selector st" a
      "max_retries st" "page_timeout st * 1000" "download_timeout st * 1000"]
  by (simp add: attempt_def)

lemma flagless_no_check: "flagless e \<Longrightarrow> Checked cp v \<notin> set e"
  by (auto simp: flagless_def)

lemma retry_loop_counts:
  "retry_loop en st url as success w = (r, w', ev) \<Longrightarrow> attempts ev \<le> length as \<and> processed ev = 0"
proof (induction as arbitrary: success w r w' ev)
  case Nil
  then show ?case by simp
next
  case (Cons a as)
  obtain v w1 e1 where rd: "read_should_stop en BeforeAttempt w = (v, w1, e1)"
    using prod_cases3 by blast
  note c1 = read_counts[OF rd]
  show ?case
  proof (cases v)
    case True
    then show ?thesis using Cons.prems rd c1 by simp
  next
    case False
    obtain s e2 where at: "attempt en st url (calls w1) a = (s, e2)" by fastforce
    note c2 = attempt_counts[OF at]
    let ?w2 = "w1\<lparr>calls := Suc (calls w1)\<rparr>"
    show ?thesis
    proof (cases s)
      case True
      then have "ev = e1 @ e2" using Cons.prems rd at \<open>\<not> v\<close> by simp
      then show ?thesis using c1 c2 by simp
    next
      case False
      let ?e3 = "if a \<le> max_retries st
                 then [Log INFO (RetryingIn (delay st)), Sleep (delay st)] else []"
      obtain r4 w4 e4 where rec: "retry_loop en st url as s ?w2 = (r4, w4, e4)"
        using prod_cases3 by blast
      note c4 = Cons.IH[OF rec]
      have "ev = e1 @ e2 @ ?e3 @ e4"
        using Cons.prems rd at \<open>\<not> v\<close> False rec by (simp add: Let_def)
      then show ?thesis using c1 c2 c4 by simp
    qed
  qed
qed

lemma retry_loop_stop_seen:
  "retry_loop en st url as False w = (r, w', ev) \<Longrightarrow> Checked BeforeAttempt True \<in> set ev \<Longrightarrow>
     \<not> r \<and> attempts ev < length as"
proof (induction as arbitrary: w r w' ev)
  case Nil
  then show ?case by simp
next
  case (Cons a as)
  obtain v w1 e1 where rd: "read_should_stop en BeforeAttempt w = (v, w1, e1)"
    using prod_cases3 by blast
  note c1 = read_counts[OF rd]
  show ?case
  proof (cases v)
    case True
    then show ?thesis using Cons.prems(1) rd c1 by simp
  next
    case False
    then have n1: "Checked BeforeAttempt True \<notin> set e1" using read_seen[OF rd] by blast
    obtain s e2 where at: "attempt en st url (calls w1) a = (s, e2)" by fastforce
    note c2 = attempt_counts[OF at]
    have n2: "Checked BeforeAttempt True \<notin> set e2"
      using attempt_flagless[OF at] by (rule flagless_no_check)
    let ?w2 = "w1\<lparr>calls := Suc (calls w1)\<rparr>"
    show ?thesis
    proof (cases s)
      case True
      then have "ev = e1 @ e2" using Cons.prems(1) rd at \<open>\<not> v\<close> by simp
      then show ?thesis using Cons.prems(2) n1 n2 by simp
    next
      case False
      let ?e3 = "if a \<le> max_retries st
                 then [Log INFO (RetryingIn (delay st)), Sleep (delay st)] else []"
      obtain r4 w4 e4 where rec: "retry_loop en st url as False ?w2 = (r4, w4, e4)"
        using prod_cases3 by blast
      have ev: "ev = e1 @ e2 @ ?e3 @ e4" and r: "r = r4"
        using Cons.prems(1) rd at \<open>\<not> v\<close> False rec by (simp_all add: Let_def)
      then have "Checked BeforeAttempt True \<in> set e4"
        using Cons.prems(2) n1 n2 by (auto split: if_splits)
      from Cons.IH[OF rec this] show ?thesis using ev r c1 c2 by simp
    qed
  qed
qed

text \<open>
  Claim C10. When a check at the top of the loop over the attempts finds the flag set while
  an item is being processed, the variable \<open>success\<close> is still \<open>False\<close> after the loop:
  the failure counter goes up by one, the address is appended to the list of failed
  addresses and the success counter stays, although the item has not had all of its
  \<open>max_retries + 1\<close> attempts.
\<close>

theorem stopped_item_is_failed:
  assumes "process_item en st len index url t w = (t', w', ev)"
    and "Checked BeforeAttempt True \<in> set ev"
  shows "failed t' = failed t + 1 \<and> failed_urls t' = failed_urls t @ [url] \<and>
    successful t' = successful t \<and> attempts ev \<le> max_retries st"
proof -
  obtain s w2 e2 where rl: "retry_loop en st url [1..<max_retries st + 2] False w = (s, w2, e2)"
    using prod_cases3 by blast
  obtain v w3 e3 where rd: "read_should_stop en AfterItem w2 = (v, w3, e3)"
    using prod_cases3 by blast
  have n3: "Checked BeforeAttempt True \<notin> set e3"
    using rd by (auto simp: read_should_stop_def Let_def split: if_splits)
  note c3 = read_counts[OF rd]
  let ?e4 = "if \<not> v then [Log INFO (WaitingFor (delay st)), Sleep (delay st)] else []"
  have ev: "ev = [Log INFO Rule40, Log INFO (ProcessingUrl index len)] @ e2 @
      (if index < len then e3 @ ?e4 else [])"
    using assms(1) rl rd by (auto simp: process_item_def Let_def split: if_splits)
  have t': "t' = (if s then t\<lparr>successful := successful t + 1\<rparr>
                   else t\<lparr>failed := failed t + 1, failed_urls := failed_urls t @ [url]\<rparr>)"
    using assms(1) rl rd by (auto simp: process_item_def Let_def split: if_splits)
  have "Checked BeforeAttempt True \<in> set e2"
    using assms(2) n3 unfolding ev by (auto split: if_splits)
  then have seen: "\<not> s \<and> attempts e2 < length [1..<max_retries st + 2]"
    by (rule retry_loop_stop_seen[OF rl])
  have "length [1..<max_retries st + 2] = max_retries st + 1"
    unfolding length_upt by simp
  with seen have "\<not> s" "attempts e2 \<le> max_retries st" by linarith+
  then show ?thesis using t' c3 unfolding ev by simp
qed

section \<open>The reads of the flag in front of attempts, items and delays\<close>

lemma last_event_append: "last_event p (xs @ ys) = last_event (last_event p xs) ys"
  by (induction xs arbitrary: p) auto

lemma last_event_last: "last_event p xs = (if xs = [] then p else Some (last xs))"
  by (induction xs arbitrary: p) auto

lemma guarded_append:
  "guarded p (xs @ ys) \<longleftrightarrow> guarded p xs \<and> guarded (last_event p xs) ys"
  by (induction xs arbitrary: p) auto

lemma plain_simps [simp]:
  "plain []"
  "plain (e # es) \<longleftrightarrow> checked_before e = None \<and> plain es"
  "plain (xs @ ys) \<longleftrightarrow> plain xs \<and> plain ys"
  by (auto simp: plain_def)

lemma plain_guarded: "plain ev \<Longrightarrow> guarded p ev"
  by (induction ev arbitrary: p) auto

lemma guarded_split:
  assumes "guarded None (pre @ e # post)" and "checked_before e = Some cp"
  shows "pre \<noteq> [] \<and> last pre = Checked cp False"
proof -
  have "last_event None pre = Some (Checked cp False)"
    using assms by (simp add: guarded_append)
  then show ?thesis by (simp add: last_event_last split: if_splits)
qed

lemma except_message_unchecked [simp]: "checked_before (Log l (except_message e)) = None"
  by (cases e) simp_all

lemma download_file_guarded:
  "guarded (Some (Checked BeforeAttempt False)) (snd (download_file ps url dp sel a r pt dt))"
  by (simp add: download_file_def download_file_try_def Let_def
        split: option.splits sum.splits)

lemma attempt_guarded:
  "attempt en st url n a = (s, e) \<Longrightarrow> guarded (Some (Checked BeforeAttempt False)) e"
  using download_file_guarded[of "pages en n" url "download_folder st" "selector st" a
      "max_retries st" "page_timeout st * 1000" "download_timeout st * 1000"]
  by (simp add: attempt_def)

lemma read_guarded:
  assumes "read_should_stop en cp w = (v, w1, e1)"
  shows "guarded p e1" "last_event p e1 = Some (Checked cp v)"
  using assms by (auto simp: read_should_stop_def Let_def split: if_splits)

lemma retry_loop_guarded:
  "retry_loop en st url as success w = (r, w', ev) \<Longrightarrow> guarded p ev"
proof (induction as arbitrary: success w r w' ev p)
  case Nil
  then show ?case by simp
next
  case (Cons a as)
  obtain v w1 e1 where rd: "read_should_stop en BeforeAttempt w = (v, w1, e1)"
    using prod_cases3 by blast
  note g1 = read_guarded[OF rd, of p]
  show ?case
  proof (cases v)
    case True
    then show ?thesis using Cons.prems rd g1 by simp
  next
    case False
    obtain s e2 where at: "attempt en st url (calls w1) a = (s, e2)" by fastforce
    have g2: "guarded (last_event p e1) e2" using attempt_guarded[OF at] g1(2) False by simp
    let ?w2 = "w1\<lparr>calls := Suc (calls w1)\<rparr>"
    show ?thesis
    proof (cases s)
      case True
      then have "ev = e1 @ e2" using Cons.prems rd at \<open>\<not> v\<close> by simp
      then show ?thesis using g1(1) g2 by (simp add: guarded_append)
    next
      case False
      let ?e3 = "if a \<le> max_retries st
                 then [Log INFO (RetryingIn (delay st)), Sleep (delay st)] else []"
      obtain r4 w4 e4 where rec: "retry_loop en st url as s ?w2 = (r4, w4, e4)"
        using prod_cases3 by blast
      have g3: "guarded q ?e3" for q by simp
      have "ev = e1 @ e2 @ ?e3 @ e4"
        using Cons.prems rd at \<open>\<not> v\<close> False rec by (simp add: Let_def)
      then show ?thesis
        using g1(1) g2 g3 Cons.IH[OF rec] by (simp only: guarded_append; simp)
    qed
  qed
qed

lemma process_item_guarded:
  assumes "process_item en st len index url t w = (t', w', ev)"
  shows "guarded (Some (Checked ItemStart False)) ev"
proof -
  obtain s w2 e2 where rl: "retry_loop en st url [1..<max_retries st + 2] False w = (s, w2, e2)"
    using prod_cases3 by blast
  obtain v w3 e3 where rd: "read_should_stop en AfterItem w2 = (v, w3, e3)"
    using prod_cases3 by blast
  let ?e1 = "[Log INFO Rule40, Log INFO (ProcessingUrl index len)]"
  let ?e4 = "if \<not> v then [Log INFO (WaitingFor (delay st)), Sleep (delay st)] else []"
  have ev: "ev = ?e1 @ e2 @ (if index < len then e3 @ ?e4 else [])"
    using assms rl rd by (auto simp: process_item_def Let_def split: if_splits)
  have g1: "guarded (Some (Checked ItemStart False)) ?e1" by simp
  have g2: "guarded q e2" for q by (rule retry_loop_guarded[OF rl])
  have g3: "guarded q (e3 @ ?e4)" for q
    using read_guarded[OF rd, of q] by (simp add: guarded_append)
  show ?thesis
    unfolding ev using g1 g2 g3 by (simp only: guarded_append split: if_splits; simp)
qed

lemma item_loop_guarded:
  "item_loop en st len items t w = (t', w', ev) \<Longrightarrow> guarded p ev"
proof (induction items arbitrary: t w t' w' ev p)
  case Nil
  then show ?case by simp
next
  case (Cons item items)
  obtain index url where item: "item = (index, url)" by fastforce
  obtain v w1 e1 where rd: "read_should_stop en ItemStart w = (v, w1, e1)"
    using prod_cases3 by blast
  note g1 = read_guarded[OF rd, of p]
  show ?case
  proof (cases v)
    case True
    have "ev = e1 @ [Log WARNING StoppedByUser]"
      using Cons.prems rd item True by simp
    then show ?thesis using g1(1) by (simp add: guarded_append)
  next
    case False
    obtain t2 w2 e2 where pi: "process_item en st len index url t w1 = (t2, w2, e2)"
      using prod_cases3 by blast
    obtain t3 w3 e3 where rec: "item_loop en st len items t2 w2 = (t3, w3, e3)"
      using prod_cases3 by blast
    have g2: "guarded (last_event p e1) e2"
      using process_item_guarded[OF pi] g1(2) False by simp
    have "ev = e1 @ e2 @ e3"
      using Cons.prems rd item False pi rec by simp
    then show ?thesis
      using g1(1) g2 Cons.IH[OF rec] by (simp only: guarded_append; simp)
  qed
qed

lemma plain_blocks:
  "plain (snd (enter_run en w))"
  "plain (snd (open_session en st))"
  "plain (snd (close_session en))"
  "plain (banner urls st)"
  "plain (summary n t)"
  by (auto simp: plain_def enter_run_def open_session_def close_session_def banner_def
        summary_def Let_def split: option.splits)

lemma session_guarded:
  assumes "session en urls st w = (raised, t, w2, e2)"
  shows "guarded p e2"
proof (cases "fst (open_session en st)")
  case None
  then obtain e1 where o: "open_session en st = (None, e1)"
    by (cases "open_session en st") auto
  obtain t' w' ei where il: "item_loop en st (length urls) (enumerate1 urls)
      \<lparr>successful = 0, failed = 0, failed_urls = []\<rparr> w = (t', w', ei)"
    using prod_cases3 by blast
  obtain r3 e3 where cl: "close_session en = (r3, e3)" by fastforce
  have g1: "guarded q e1" for q using plain_blocks(2)[of en st] o by (simp add: plain_guarded)
  have g3: "guarded q e3" for q using plain_blocks(3)[of en] cl by (simp add: plain_guarded)
  have "e2 = e1 @ ei @ e3"
    using assms session_opened[OF o il cl] by simp
  then show ?thesis
    using g1 item_loop_guarded[OF il] g3 by (simp only: guarded_append; simp)
next
  case (Some x)
  then obtain e1 where o: "open_session en st = (Some x, e1)"
    by (cases "open_session en st") auto
  have "e2 = e1" using assms session_not_opened[OF o] by simp
  then show ?thesis using plain_blocks(2)[of en st] o by (simp add: plain_guarded)
qed

lemma run_guarded: "guarded None (snd (snd (run en urls st w)))"
proof -
  obtain w1 e0 where er: "enter_run en w = (w1, e0)" by fastforce
  have g0: "guarded q (e0 @ [Mkdir (download_folder st)])" for q
    using plain_blocks(1)[of en w] er by (simp add: plain_guarded)
  show ?thesis
  proof (cases "mkdir_raises en")
    case (Some x)
    then show ?thesis using er g0 by (simp add: run_def)
  next
    case None
    obtain raised t w2 e2 where se: "session en urls st w1 = (raised, t, w2, e2)"
      using prod_cases4 by blast
    let ?e3 = "case raised of Some x \<Rightarrow> [Log ERROR (BrowserError (str_of_exn x))] | None \<Rightarrow> []"
    have gb: "guarded q (banner urls st)" for q
      using plain_blocks(4)[of urls st] by (simp add: plain_guarded)
    have g3: "guarded q (?e3 @ summary (length urls) t)" for q
      using plain_blocks(5)[of "length urls" t]
      by (intro plain_guarded) (simp split: option.splits)
    have "guarded None ((e0 @ [Mkdir (download_folder st)]) @ banner urls st @ e2 @
        (?e3 @ summary (length urls) t))"
      using g0 gb session_guarded[OF se] g3 by (simp only: guarded_append; simp)
    then show ?thesis
      unfolding run_returns[OF None er se] by simp
  qed
qed

lemma split_in_suffix:
  "xs @ ys = pre @ e # post \<Longrightarrow> e \<notin> set xs \<Longrightarrow> \<exists>pre'. ys = pre' @ e # post"
  by (induction xs arbitrary: pre) (auto simp: Cons_eq_append_conv)

lemma quiet_after_seen:
  assumes "snd (snd (run en urls st w)) = pre @ Checked cp True # post"
  shows "attempts post = 0 \<and> processed post = 0 \<and> (\<forall>d. Sleep d \<notin> set post)"
proof -
  obtain rest where r: "snd (snd (run en urls st w)) = snd (enter_run en w) @ rest"
    "flags_ok (fst (enter_run en w)) (fst (snd (run en urls st w))) rest"
    using run_after_reset by blast
  have "Checked cp True \<notin> set (snd (enter_run en w))"
    by (simp add: enter_run_def Let_def)
  then obtain pre' where p: "rest = pre' @ Checked cp True # post"
    using split_in_suffix[of "snd (enter_run en w)" rest pre "Checked cp True" post] assms r(1)
    by auto
  have "monotone_from False rest" "stop_respected False rest"
    using r(2) enter_run_world(1)[of en w] by (simp_all add: flags_ok_def)
  then show ?thesis
    using quiet_after_set[of pre' "Checked cp True" post] p by simp
qed

lemma stopped_before_first_item:
  assumes sc: "stop_calls en (Suc (accesses w))"
  shows "attempts (snd (snd (run en urls st w))) = 0 \<and>
        processed (snd (snd (run en urls st w))) = 0 \<and>
        (mkdir_raises en = None \<longrightarrow> fst (run en urls st w) = Inr (0, 0))"
proof -
  obtain w1 e0 where er: "enter_run en w = (w1, e0)" by fastforce
  have w1: "accesses w1 = Suc (accesses w)" using er enter_run_world(2)[of en w] by simp
  have e0: "attempts e0 = 0" "processed e0 = 0"
    using er enter_run_counts(1,2)[of en w] by simp_all
  show ?thesis
  proof (cases "mkdir_raises en")
    case (Some x)
    then show ?thesis using er e0 by (simp add: run_def)
  next
    case None
    show ?thesis
    proof (cases "fst (open_session en st)")
      case (Some x)
      then obtain e1 where o: "open_session en st = (Some x, e1)"
        by (cases "open_session en st") auto
      have e1: "attempts e1 = 0" "processed e1 = 0"
        using o open_session_counts(1,2)[of en st] by simp_all
      show ?thesis
        unfolding run_returns[OF None er session_not_opened[OF o]]
        using e0 e1 by (simp add: banner_counts summary_counts)
    next
      case None2: None
      then obtain e1 where o: "open_session en st = (None, e1)"
        by (cases "open_session en st") auto
      obtain r3 e3 where cl: "close_session en = (r3, e3)" by fastforce
      obtain w' ei where il: "item_loop en st (length urls) (enumerate1 urls)
          \<lparr>successful = 0, failed = 0, failed_urls = []\<rparr> w1
          = (\<lparr>successful = 0, failed = 0, failed_urls = []\<rparr>, w', ei)"
        and ei: "attempts ei = 0" "processed ei = 0"
        using item_loop_stopped_at_start[of en w1] sc w1 by fastforce
      have e1: "attempts e1 = 0" "processed e1 = 0"
        using o open_session_counts(1,2)[of en st] by simp_all
      have e3: "attempts e3 = 0" "processed e3 = 0"
        using cl close_session_counts(1,2)[of en] by simp_all
      show ?thesis
        unfolding run_returns[OF None er session_opened[OF o il cl]]
        using e0 e1 e3 ei by (simp add: banner_counts summary_counts split: option.splits)
    qed
  qed
qed

lemma guarded_worker_events:
  "guarded p es \<Longrightarrow> guarded (if p = Some StopRequested then q else p) (worker_events es)"
proof (induction es arbitrary: p q)
  case Nil
  then show ?case by (simp add: worker_events_def)
next
  case (Cons e es)
  show ?case
  proof (cases "e = StopRequested")
    case True
    then have "guarded (Some StopRequested) es" using Cons.prems by simp
    from Cons.IH[OF this, of "if p = Some StopRequested then q else p"]
    show ?thesis using True by (simp add: worker_events_def)
  next
    case False
    have g: "guarded (Some e) es" using Cons.prems by simp
    have "guarded (Some e) (worker_events es)"
      using Cons.IH[OF g, of q] False by simp
    moreover have "case checked_before e of None \<Rightarrow> True
        | Some cp \<Rightarrow> (if p = Some StopRequested then q else p) = Some (Checked cp False)"
      using Cons.prems by (auto split: option.splits)
    ultimately show ?thesis using False by (simp add: worker_events_def)
  qed
qed

lemma run_worker_guarded: "guarded None (worker_events (snd (snd (run en urls st w))))"
  using guarded_worker_events[OF run_guarded, of None en urls st w] by simp

lemma filter_split:
  "filter P ev = pre @ e # post \<Longrightarrow> \<exists>pre' post'. ev = pre' @ e # post' \<and> filter P post' = post"
proof (induction ev arbitrary: pre)
  case Nil
  then show ?case by simp
next
  case (Cons x xs)
  show ?case
  proof (cases "P x")
    case False
    then have "filter P xs = pre @ e # post" using Cons.prems by simp
    from Cons.IH[OF this] obtain pre' post' where "xs = pre' @ e # post'" "filter P post' = post"
      by blast
    then have "x # xs = (x # pre') @ e # post' \<and> filter P post' = post" by simp
    then show ?thesis by blast
  next
    case True
    show ?thesis
    proof (cases pre)
      case Nil
      then have "x # xs = [] @ e # xs \<and> filter P xs = post" using Cons.prems True by simp
      then show ?thesis by blast
    next
      case (Cons y ys)
      then have "filter P xs = ys @ e # post" using Cons.prems True by simp
      from Cons.IH[OF this] obtain pre' post' where "xs = pre' @ e # post'" "filter P post' = post"
        by blast
      then have "x # xs = (x # pre') @ e # post' \<and> filter P post' = post" by simp
      then show ?thesis by blast
    qed
  qed
qed

lemma worker_events_counts:
  "attempts (worker_events ev) = attempts ev" "processed (worker_events ev) = processed ev"
  "Sleep d \<in> set (worker_events ev) \<longleftrightarrow> Sleep d \<in> set ev"
  by (induction ev) (auto simp: worker_events_def)

lemma quiet_after_seen_worker:
  assumes "worker_events (snd (snd (run en urls st w))) = pre @ Checked cp True # post"
  shows "attempts post = 0 \<and> processed post = 0 \<and> (\<forall>d. Sleep d \<notin> set post)"
proof -
  obtain pre' post' where sp: "snd (snd (run en urls st w)) = pre' @ Checked cp True # post'"
    "worker_events post' = post"
    using filter_split[OF assms[unfolded worker_events_def]] unfolding worker_events_def by blast
  from quiet_after_seen[OF sp(1)] show ?thesis
    using worker_events_counts[where ev = post'] unfolding sp(2) by simp
qed

text \<open>
  Claim C2, as the code has it, stated on the worker's own events, so that it holds at
  whatever moments \<open>stop()\<close> is called. The flag is read immediately before every
  attempt, which is before the first one and between two of them, immediately before every
  item, and immediately before the notice of the delay between two items; each of these
  goes ahead only when the read found the flag clear. Once a read has found it set, no
  attempt is started any more: the run leaves its loops at that read, enters no further
  item and does not sleep again. When \<open>stop()\<close> is called after the assignment at the
  start of \<open>run\<close> and before the first item, that is before the worker's first read of
  the flag, the run makes no attempt and enters no item, and its result is \<open>(0, 0)\<close>
  when the folder could be created.
\<close>

theorem no_attempt_after_stop:
  "(\<forall>pre e post cp.
      worker_events (snd (snd (run en urls st w))) = pre @ e # post \<and> checked_before e = Some cp
      \<longrightarrow> pre \<noteq> [] \<and> last pre = Checked cp False)
   \<and> (\<forall>pre cp post.
        worker_events (snd (snd (run en urls st w))) = pre @ Checked cp True # post
        \<longrightarrow> attempts post = 0 \<and> processed post = 0 \<and> (\<forall>d. Sleep d \<notin> set post))
   \<and> (stop_calls en (Suc (accesses w)) \<longrightarrow>
        attempts (snd (snd (run en urls st w))) = 0 \<and>
        processed (snd (snd (run en urls st w))) = 0 \<and>
        (mkdir_raises en = None \<longrightarrow> fst (run en urls st w) = Inr (0, 0)))"
proof -
  have part1: "pre \<noteq> [] \<and> last pre = Checked cp False"
    if "worker_events (snd (snd (run en urls st w))) = pre @ e # post" "checked_before e = Some cp"
    for pre e post cp
    using run_worker_guarded[of en urls st w] that by (simp add: guarded_split)
  have part2: "attempts post = 0 \<and> processed post = 0 \<and> (\<forall>d. Sleep d \<notin> set post)"
    if "worker_events (snd (snd (run en urls st w))) = pre @ Checked cp True # post"
    for pre cp post
    using that by (rule quiet_after_seen_worker)
  show ?thesis using part1 part2 stopped_before_first_item[of en w urls st] by blast
qed

theorem no_attempt_after_stop_witness:
  "snd (snd (run late_stop_env two_urls example_settings fresh_world)) =
     late_stop_before @ StopRequested # late_stop_after
   \<and> worker_events (snd (snd (run late_stop_env two_urls example_settings fresh_world))) =
     late_stop_before @ late_stop_after
   \<and> late_stop_before ! 18 = Log INFO (AttemptOpening 1 3 ''https://a.test/x'')
   \<and> last (take 18 late_stop_before) = Checked BeforeAttempt False
   \<and> hd late_stop_after = Checked BeforeAttempt True
   \<and> attempts late_stop_before = 1
   \<and> attempts (tl late_stop_after) = 0 \<and> processed (tl late_stop_after) = 0
   \<and> (\<forall>d. Sleep d \<notin> set (tl late_stop_after))
   \<and> stop_calls (stop_at 1) (Suc (accesses fresh_world))
   \<and> mkdir_raises (stop_at 1) = None
   \<and> attempts (snd (snd (run (stop_at 1) two_urls example_settings fresh_world))) = 0
   \<and> fst (run (stop_at 1) two_urls example_settings fresh_world) = Inr (0, 0)"
proof -
  let ?ev = "snd (snd (run late_stop_env two_urls example_settings fresh_world))"
  let ?open = "Log INFO (AttemptOpening 1 3 ''https://a.test/x'')"
  have a: "?ev = late_stop_before @ StopRequested # late_stop_after"
    by (simp add: late_stop_run)
  have wk: "worker_events ?ev = late_stop_before @ late_stop_after"
    unfolding a by (simp add: worker_events_def late_stop_before_def late_stop_after_def)
  have b: "late_stop_before ! 18 = ?open" "attempts late_stop_before = 1"
    by (simp_all add: late_stop_before_def)
  have s1: "worker_events ?ev = take 18 late_stop_before @ ?open #
      (drop 19 late_stop_before @ late_stop_after)"
    unfolding wk by (simp add: late_stop_before_def)
  have s2: "worker_events ?ev = late_stop_before @ Checked BeforeAttempt True #
      tl late_stop_after"
    unfolding wk by (simp add: late_stop_after_def)
  have h: "hd late_stop_after = Checked BeforeAttempt True" by (simp add: late_stop_after_def)
  note thm1 = no_attempt_after_stop[of late_stop_env two_urls example_settings fresh_world]
  have c1: "last (take 18 late_stop_before) = Checked BeforeAttempt False"
    using thm1[THEN conjunct1, rule_format, of "take 18 late_stop_before" ?open
        "drop 19 late_stop_before @ late_stop_after" BeforeAttempt] s1
    by simp
  have c2: "attempts (tl late_stop_after) = 0 \<and> processed (tl late_stop_after) = 0 \<and>
      (\<forall>d. Sleep d \<notin> set (tl late_stop_after))"
    using thm1[THEN conjunct2, THEN conjunct1, rule_format,
        of late_stop_before BeforeAttempt "tl late_stop_after"] s2
    by blast
  have d: "stop_calls (stop_at 1) (Suc (accesses fresh_world))"
    by (simp add: stop_at_def fresh_world_def)
  have e: "mkdir_raises (stop_at 1) = None" by (simp add: stop_at_def quiet_env_def)
  note t3 = no_attempt_after_stop[of "stop_at 1" two_urls example_settings fresh_world,
      THEN conjunct2, THEN conjunct2, THEN mp, OF d]
  show ?thesis using a wk b c1 c2 h d e t3 by blast
qed

text \<open>
  Claim C2 as worded fails for a call of \<open>stop()\<close> that comes before the assignment at
  the start of \<open>run\<close>: no item has started, and the run goes on to make an attempt
  and to report a success.
\<close>

theorem stop_before_reset_counterexample:
  "take 2 (snd (snd (run (stop_at 0) [''https://a.test/x''] example_settings fresh_world))) =
     [StopRequested, FlagReset]
   \<and> attempts (snd (snd (run (stop_at 0) [''https://a.test/x''] example_settings fresh_world))) = 1
   \<and> fst (run (stop_at 0) [''https://a.test/x''] example_settings fresh_world) = Inr (1, 0)"
  by (simp add: lost_stop_run)

lemma late_stop_item:
  "process_item late_stop_env example_settings 2 1 ''https://a.test/x'' empty_tally
     world_at_first_item =
   (\<lparr>successful = 0, failed = 1, failed_urls = [''https://a.test/x'']\<rparr>,
    \<lparr>is_running = True, should_stop = True, accesses = 5, calls = 1\<rparr>,
    [Log INFO Rule40, Log INFO (ProcessingUrl 1 2), Checked BeforeAttempt False,
     Log INFO (AttemptOpening 1 3 ''https://a.test/x''), Goto ''https://a.test/x'' 30000,
     Log ERROR (TimeoutMsg ''Timeout 30000ms exceeded''),
     Log INFO (RetryingIn 2), Sleep 2, StopRequested,
     Checked BeforeAttempt True, Checked AfterItem True])"
  by (simp add: run_eval late_stop_env_def stop_at_def world_at_first_item_def empty_tally_def)

theorem stopped_item_is_failed_witness:
  "Checked BeforeAttempt True \<in> set (snd (snd (process_item late_stop_env example_settings 2 1
      ''https://a.test/x'' empty_tally world_at_first_item)))
   \<and> failed (fst (process_item late_stop_env example_settings 2 1
      ''https://a.test/x'' empty_tally world_at_first_item)) = 1
   \<and> failed_urls (fst (process_item late_stop_env example_settings 2 1
      ''https://a.test/x'' empty_tally world_at_first_item)) = [''https://a.test/x'']
   \<and> successful (fst (process_item late_stop_env example_settings 2 1
      ''https://a.test/x'' empty_tally world_at_first_item)) = 0
   \<and> attempts (snd (snd (process_item late_stop_env example_settings 2 1
      ''https://a.test/x'' empty_tally world_at_first_item))) = 1
   \<and> max_retries example_settings = 2
   \<and> fst (run late_stop_env two_urls example_settings fresh_world) = Inr (0, 1)"
proof -
  let ?t = "\<lparr>successful = 0, failed = 1, failed_urls = [''https://a.test/x'']\<rparr>"
  let ?ev = "[Log INFO Rule40, Log INFO (ProcessingUrl 1 2), Checked BeforeAttempt False,
     Log INFO (AttemptOpening 1 3 ''https://a.test/x''), Goto ''https://a.test/x'' 30000,
     Log ERROR (TimeoutMsg ''Timeout 30000ms exceeded''),
     Log INFO (RetryingIn 2), Sleep 2, StopRequested,
     Checked BeforeAttempt True, Checked AfterItem True]"
  have m: "Checked BeforeAttempt True \<in> set ?ev" by simp
  have a: "attempts ?ev = 1" by simp
  note inst = stopped_item_is_failed[OF late_stop_item m]
  have "failed ?t = failed empty_tally + 1 \<and>
      failed_urls ?t = failed_urls empty_tally @ [''https://a.test/x''] \<and>
      successful ?t = successful empty_tally"
    using inst by blast
  then have "failed ?t = 1 \<and> failed_urls ?t = [''https://a.test/x''] \<and> successful ?t = 0"
    by (simp add: empty_tally_def)
  moreover have "max_retries example_settings = 2" by (simp add: example_settings_def)
  moreover have "fst (run late_stop_env two_urls example_settings fresh_world) = Inr (0, 1)"
    by (simp add: late_stop_run)
  ultimately show ?thesis using m a unfolding late_stop_item by simp
qed

section \<open>Counters and the list of failed addresses\<close>

lemma process_item_tally:
  assumes "process_item en st len index url t w = (t', w', ev)"
  shows "processed ev = 1 \<and> attempts ev \<le> max_retries st + 1 \<and>
    (t' = t\<lparr>successful := successful t + 1\<rparr> \<or>
     t' = t\<lparr>failed := failed t + 1, failed_urls := failed_urls t @ [url]\<rparr>)"
proof -
  obtain s w2 e2 where rl: "retry_loop en st url [1..<max_retries st + 2] False w = (s, w2, e2)"
    using prod_cases3 by blast
  obtain v w3 e3 where rd: "read_should_stop en AfterItem w2 = (v, w3, e3)"
    using prod_cases3 by blast
  note c3 = read_counts[OF rd]
  let ?e4 = "if \<not> v then [Log INFO (WaitingFor (delay st)), Sleep (delay st)] else []"
  have ev: "ev = [Log INFO Rule40, Log INFO (ProcessingUrl index len)] @ e2 @
      (if index < len then e3 @ ?e4 else [])"
    using assms(1) rl rd by (auto simp: process_item_def Let_def split: if_splits)
  have t': "t' = (if s then t\<lparr>successful := successful t + 1\<rparr>
                   else t\<lparr>failed := failed t + 1, failed_urls := failed_urls t @ [url]\<rparr>)"
    using assms(1) rl rd by (auto simp: process_item_def Let_def split: if_splits)
  have c2: "attempts e2 \<le> length [1..<max_retries st + 2] \<and> processed e2 = 0"
    by (rule retry_loop_counts[OF rl])
  have "length [1..<max_retries st + 2] = max_retries st + 1"
    unfolding length_upt by simp
  with c2 have "attempts e2 \<le> max_retries st + 1" "processed e2 = 0" by linarith+
  then show ?thesis using t' c3 unfolding ev by simp
qed

lemma item_loop_tally:
  "item_loop en st len items t w = (t', w', ev) \<Longrightarrow>
     processed ev \<le> length items \<and> attempts ev \<le> processed ev * (max_retries st + 1) \<and>
     successful t' + failed t' = successful t + failed t + processed ev \<and>
     (\<exists>fs. failed_urls t' = failed_urls t @ fs \<and> subseq fs (map snd items) \<and>
           failed t' = failed t + length fs) \<and>
     (processed ev < length items \<longrightarrow> Log WARNING StoppedByUser \<in> set ev)"
proof (induction items arbitrary: t w t' w' ev)
  case Nil
  then show ?case by simp
next
  case (Cons item items)
  obtain index url where item: "item = (index, url)" by fastforce
  obtain v w1 e1 where rd: "read_should_stop en ItemStart w = (v, w1, e1)"
    using prod_cases3 by blast
  note c1 = read_counts[OF rd]
  show ?case
  proof (cases v)
    case True
    have "ev = e1 @ [Log WARNING StoppedByUser]" "t' = t"
      using Cons.prems rd item True by simp_all
    then show ?thesis using c1 by simp
  next
    case False
    obtain t2 w2 e2 where pi: "process_item en st len index url t w1 = (t2, w2, e2)"
      using prod_cases3 by blast
    obtain t3 w3 e3 where rec: "item_loop en st len items t2 w2 = (t3, w3, e3)"
      using prod_cases3 by blast
    have ev: "ev = e1 @ e2 @ e3" and t': "t' = t3"
      using Cons.prems rd item False pi rec by simp_all
    from process_item_tally[OF pi] have p2: "processed e2 = 1"
      and a2: "attempts e2 \<le> max_retries st + 1"
      and t2: "t2 = t\<lparr>successful := successful t + 1\<rparr> \<or>
               t2 = t\<lparr>failed := failed t + 1, failed_urls := failed_urls t @ [url]\<rparr>"
      by blast+
    from Cons.IH[OF rec] obtain fs where ih:
      "processed e3 \<le> length items" "attempts e3 \<le> processed e3 * (max_retries st + 1)"
      "successful t3 + failed t3 = successful t2 + failed t2 + processed e3"
      "failed_urls t3 = failed_urls t2 @ fs" "subseq fs (map snd items)"
      "failed t3 = failed t2 + length fs"
      "processed e3 < length items \<longrightarrow> Log WARNING StoppedByUser \<in> set e3"
      by blast
    have n: "processed ev = Suc (processed e3)" "attempts ev = attempts e2 + attempts e3"
      unfolding ev using c1 p2 by simp_all
    have s: "successful t2 + failed t2 = successful t + failed t + 1"
      using t2 by auto
    have f: "\<exists>gs. failed_urls t3 = failed_urls t @ gs \<and> subseq gs (url # map snd items) \<and>
        failed t3 = failed t + length gs"
    proof (rule disjE[OF t2])
      assume "t2 = t\<lparr>successful := successful t + 1\<rparr>"
      then have "failed_urls t3 = failed_urls t @ fs \<and> subseq fs (url # map snd items) \<and>
          failed t3 = failed t + length fs"
        using ih(4,5,6) subseq_drop_many[of fs "map snd items" "[url]"] by simp
      then show ?thesis by blast
    next
      assume "t2 = t\<lparr>failed := failed t + 1, failed_urls := failed_urls t @ [url]\<rparr>"
      then have "failed_urls t3 = failed_urls t @ (url # fs) \<and>
          subseq (url # fs) (url # map snd items) \<and> failed t3 = failed t + length (url # fs)"
        using ih(4,5,6) by simp
      then show ?thesis by blast
    qed
    have "attempts ev \<le> processed ev * (max_retries st + 1)"
      unfolding n using a2 ih(2) by simp
    moreover have "successful t' + failed t' = successful t + failed t + processed ev"
      unfolding n t' using ih(3) s by simp
    moreover have "processed ev \<le> length (item # items)" unfolding n using ih(1) by simp
    moreover have "processed ev < length (item # items) \<longrightarrow> Log WARNING StoppedByUser \<in> set ev"
      unfolding n using ih(7) by (simp add: ev)
    ultimately show ?thesis using f unfolding t' item by simp
  qed
qed

lemma length_enumerate1: "length (enumerate1 urls) = length urls"
  unfolding enumerate1_def length_zip length_upt by simp

lemma map_snd_enumerate1: "map snd (enumerate1 urls) = urls"
  unfolding enumerate1_def map_snd_zip_take length_upt by simp

lemma session_tally:
  assumes "session en urls st w = (raised, t, w2, e2)"
  shows "processed e2 \<le> length urls \<and> attempts e2 \<le> processed e2 * (max_retries st + 1) \<and>
     successful t + failed t = processed e2 \<and>
     failed t = length (failed_urls t) \<and> subseq (failed_urls t) urls \<and>
     (fst (open_session en st) = None \<and> Log WARNING StoppedByUser \<notin> set e2
        \<longrightarrow> processed e2 = length urls)"
proof (cases "fst (open_session en st)")
  case None
  then obtain e1 where o: "open_session en st = (None, e1)"
    by (cases "open_session en st") auto
  obtain t' w' ei where il: "item_loop en st (length urls) (enumerate1 urls)
      \<lparr>successful = 0, failed = 0, failed_urls = []\<rparr> w = (t', w', ei)"
    using prod_cases3 by blast
  obtain r3 e3 where cl: "close_session en = (r3, e3)" by fastforce
  have e1: "attempts e1 = 0" "processed e1 = 0"
    using o open_session_counts(1,2)[of en st] by simp_all
  have e3: "attempts e3 = 0" "processed e3 = 0"
    using cl close_session_counts(1,2)[of en] by simp_all
  have eq: "e2 = e1 @ ei @ e3" "t = t'"
    using assms session_opened[OF o il cl] by simp_all
  note len = length_enumerate1[of urls]
  from item_loop_tally[OF il] obtain fs where it:
    "processed ei \<le> length urls" "attempts ei \<le> processed ei * (max_retries st + 1)"
    "successful t' + failed t' = processed ei"
    "failed_urls t' = fs" "subseq fs urls" "failed t' = length fs"
    "processed ei < length urls \<longrightarrow> Log WARNING StoppedByUser \<in> set ei"
    unfolding len map_snd_enumerate1 by auto
  have n: "processed e2 = processed ei" "attempts e2 = attempts ei"
    unfolding eq using e1 e3 by simp_all
  have "Log WARNING StoppedByUser \<notin> set e2 \<longrightarrow> processed e2 = length urls"
    unfolding n using it(1,7) by (auto simp: eq)
  then show ?thesis unfolding n using it by (simp add: eq(2))
next
  case (Some x)
  then obtain e1 where o: "open_session en st = (Some x, e1)"
    by (cases "open_session en st") auto
  have "e2 = e1" "t = \<lparr>successful = 0, failed = 0, failed_urls = []\<rparr>"
    using assms session_not_opened[OF o] by simp_all
  then show ?thesis using open_session_counts(1,2)[of en st] o Some by simp
qed

lemma StoppedByUser_outside:
  "Log WARNING StoppedByUser \<notin> set (snd (enter_run en w))"
  "Log WARNING StoppedByUser \<notin> set (banner urls st)"
  "Log WARNING StoppedByUser \<notin> set (summary n t)"
  by (auto simp: enter_run_def banner_def summary_def Let_def)

lemma run_tally:
  assumes mk: "mkdir_raises en = None"
  shows "fst (run en urls st w) =
      Inr (successful (final_tally en urls st w), failed (final_tally en urls st w))"
    "suffix (summary (length urls) (final_tally en urls st w)) (snd (snd (run en urls st w)))"
    "processed (snd (snd (run en urls st w))) \<le> length urls"
    "attempts (snd (snd (run en urls st w))) \<le>
       processed (snd (snd (run en urls st w))) * (max_retries st + 1)"
    "successful (final_tally en urls st w) + failed (final_tally en urls st w) =
       processed (snd (snd (run en urls st w)))"
    "failed (final_tally en urls st w) = length (failed_urls (final_tally en urls st w))"
    "subseq (failed_urls (final_tally en urls st w)) urls"
    "fst (open_session en st) = None \<Longrightarrow>
       Log WARNING StoppedByUser \<notin> set (snd (snd (run en urls st w))) \<Longrightarrow>
       processed (snd (snd (run en urls st w))) = length urls"
proof -
  obtain w1 e0 where er: "enter_run en w = (w1, e0)" by fastforce
  obtain raised t w2 e2 where se: "session en urls st w1 = (raised, t, w2, e2)"
    using prod_cases4 by blast
  have ft: "final_tally en urls st w = t" by (simp add: final_tally_def er se)
  let ?e3 = "case raised of Some x \<Rightarrow> [Log ERROR (BrowserError (str_of_exn x))] | None \<Rightarrow> []"
  have run: "run en urls st w =
    (Inr (successful t, failed t), w2\<lparr>is_running := False\<rparr>,
     e0 @ [Mkdir (download_folder st)] @ banner urls st @ e2 @ ?e3 @ summary (length urls) t)"
    by (rule run_returns[OF mk er se])
  have e0: "attempts e0 = 0" "processed e0 = 0"
    using er enter_run_counts(1,2)[of en w] by simp_all
  have e3: "attempts ?e3 = 0" "processed ?e3 = 0" by (simp_all split: option.splits)
  have n: "processed (snd (snd (run en urls st w))) = processed e2"
    "attempts (snd (snd (run en urls st w))) = attempts e2"
    unfolding run using e0 e3 by (simp_all add: banner_counts summary_counts)
  note st = session_tally[OF se]
  show "fst (run en urls st w) =
      Inr (successful (final_tally en urls st w), failed (final_tally en urls st w))"
    unfolding ft run by simp
  show "suffix (summary (length urls) (final_tally en urls st w)) (snd (snd (run en urls st w)))"
    unfolding ft run by (simp add: suffix_def)
  show "processed (snd (snd (run en urls st w))) \<le> length urls"
    unfolding n using st by blast
  show "attempts (snd (snd (run en urls st w))) \<le>
       processed (snd (snd (run en urls st w))) * (max_retries st + 1)"
    unfolding n using st by blast
  show "successful (final_tally en urls st w) + failed (final_tally en urls st w) =
       processed (snd (snd (run en urls st w)))"
    unfolding n ft using st by blast
  show "failed (final_tally en urls st w) = length (failed_urls (final_tally en urls st w))"
    unfolding ft using st by blast
  show "subseq (failed_urls (final_tally en urls st w)) urls"
    unfolding ft using st by blast
  show "processed (snd (snd (run en urls st w))) = length urls"
    if "fst (open_session en st) = None"
      "Log WARNING StoppedByUser \<notin> set (snd (snd (run en urls st w)))"
  proof -
    have "Log WARNING StoppedByUser \<notin> set e2" using that(2) unfolding run by simp
    then show ?thesis unfolding n using st that(1) by blast
  qed
qed






lemma timeout_run:
  "run timeout_env two_urls (example_settings\<lparr>max_retries := 0\<rparr>) fresh_world =
    (Inr (0, 2), \<lparr>is_running = False, should_stop = False, accesses = 6, calls = 2\<rparr>,
     [FlagReset, Mkdir ''downloads'', Log INFO Rule50,
      Log INFO StartingDownloads, Log INFO (UrlsToProcess 2),
      Log INFO (DownloadFolder ''downloads''),
      Log INFO (ButtonSelector ''button.download-btn''),
      Log INFO (BrowserLine ''Chromium'' []), Log INFO Rule50, StartPlaywright,
      Log INFO LaunchingBrowser,
      Launch Chromium \<lparr>opt_headless = False, opt_slow_mo = 100, opt_executable_path = None\<rparr>,
      NewContext, NewPage, Checked ItemStart False, Log INFO Rule40,
      Log INFO (ProcessingUrl 1 2), Checked BeforeAttempt False,
      Log INFO (AttemptOpening 1 1 ''https://a.test/x''),
      Goto ''https://a.test/x'' 30000,
      Log ERROR (TimeoutMsg ''Timeout 30000ms exceeded''),
      Checked AfterItem False, Log INFO (WaitingFor 2), Sleep 2,
      Checked ItemStart False, Log INFO Rule40,
      Log INFO (ProcessingUrl 2 2), Checked BeforeAttempt False,
      Log INFO (AttemptOpening 1 1 ''https://a.test/y''),
      Goto ''https://a.test/y'' 30000,
      Log ERROR (TimeoutMsg ''Timeout 30000ms exceeded''),
      Log INFO ClosingBrowser, CloseContext, CloseBrowser, Log INFO Rule50,
      Log INFO DownloadSummary, Log INFO Rule50, Log INFO (Totals 2 0 2),
      Log INFO FailedUrlsHeader, Log INFO (FailedUrl ''https://a.test/x''),
      Log INFO (FailedUrl ''https://a.test/y''),
      Log INFO Rule50, Log INFO Done])"
  by (simp add: run_eval timeout_env_def two_urls_def)


lemma run_without_folder:
  assumes "mkdir_raises en = Some x"
  shows "fst (run en urls st w) = Inl x" "attempts (snd (snd (run en urls st w))) = 0"
    "processed (snd (snd (run en urls st w))) = 0"
proof -
  obtain w1 e0 where er: "enter_run en w = (w1, e0)" by fastforce
  have e0: "attempts e0 = 0" "processed e0 = 0"
    using er enter_run_counts(1,2)[of en w] by simp_all
  show "fst (run en urls st w) = Inl x" "attempts (snd (snd (run en urls st w))) = 0"
    "processed (snd (snd (run en urls st w))) = 0"
    using assms er e0 by (simp_all add: run_def)
qed

text \<open>
  Claim C1, as the code has it. A run makes at most \<open>max_retries + 1\<close> attempts for each
  item that it processes, so at most \<open>N * (max_retries + 1)\<close> for a job of \<open>N\<close>
  addresses. Processing an item adds one to exactly one of the two counters, and to the
  list of failed addresses when it is the failure counter. The two counters that \<open>run\<close>
  returns add up to the number of items processed. That number is \<open>N\<close> when the folder
  could be created, the session opened and the loop was not left on a stop request; it is
  smaller when items were skipped because of cancellation, and it is zero when the session
  could not be opened. When the folder cannot be created \<open>run\<close> returns nothing: the
  exception leaves it.
\<close>

theorem attempts_and_outcomes:
  "attempts (snd (snd (run en urls st w))) \<le>
     processed (snd (snd (run en urls st w))) * (max_retries st + 1)
   \<and> attempts (snd (snd (run en urls st w))) \<le> length urls * (max_retries st + 1)
   \<and> processed (snd (snd (run en urls st w))) \<le> length urls
   \<and> (case fst (run en urls st w) of
         Inl x \<Rightarrow> mkdir_raises en = Some x \<and> processed (snd (snd (run en urls st w))) = 0
       | Inr (s, f) \<Rightarrow> s + f = processed (snd (snd (run en urls st w))))
   \<and> (mkdir_raises en = None \<and> fst (open_session en st) = None \<and>
       Log WARNING StoppedByUser \<notin> set (snd (snd (run en urls st w)))
       \<longrightarrow> processed (snd (snd (run en urls st w))) = length urls)
   \<and> (case process_item en st len index url t w0 of
         (t', w', ev') \<Rightarrow>
           processed ev' = 1 \<and> attempts ev' \<le> max_retries st + 1 \<and>
           ((successful t' = successful t + 1 \<and> failed t' = failed t \<and>
             failed_urls t' = failed_urls t) \<or>
            (successful t' = successful t \<and> failed t' = failed t + 1 \<and>
             failed_urls t' = failed_urls t @ [url])))"
proof -
  let ?ev = "snd (snd (run en urls st w))"
  have run: "attempts ?ev \<le> processed ?ev * (max_retries st + 1) \<and> processed ?ev \<le> length urls \<and>
      (case fst (run en urls st w) of
         Inl x \<Rightarrow> mkdir_raises en = Some x \<and> processed ?ev = 0
       | Inr (s, f) \<Rightarrow> s + f = processed ?ev) \<and>
      (mkdir_raises en = None \<and> fst (open_session en st) = None \<and>
       Log WARNING StoppedByUser \<notin> set ?ev \<longrightarrow> processed ?ev = length urls)"
  proof (cases "mkdir_raises en")
    case (Some x)
    then show ?thesis using run_without_folder[OF Some, of urls st w] by simp
  next
    case None
    note rt = run_tally[OF None, where urls = urls and st = st and w = w]
    show ?thesis using rt(1,3,4,5,8) None by simp
  qed
  then have "attempts ?ev \<le> processed ?ev * (max_retries st + 1)" "processed ?ev \<le> length urls"
    by blast+
  then have "processed ?ev * (max_retries st + 1) \<le> length urls * (max_retries st + 1)"
    by (intro mult_le_mono1)
  with run have all: "attempts ?ev \<le> length urls * (max_retries st + 1)"
    by linarith
  obtain t' w' ev' where pi: "process_item en st len index url t w0 = (t', w', ev')"
    using prod_cases3 by blast
  have item: "processed ev' = 1 \<and> attempts ev' \<le> max_retries st + 1 \<and>
      ((successful t' = successful t + 1 \<and> failed t' = failed t \<and>
        failed_urls t' = failed_urls t) \<or>
       (successful t' = successful t \<and> failed t' = failed t + 1 \<and>
        failed_urls t' = failed_urls t @ [url]))"
    using process_item_tally[OF pi] by auto
  show ?thesis using run all item unfolding pi by simp
qed

lemma failing_launch_run:
  "run failing_launch_env [''https://a.test/x''] example_settings fresh_world =
    (Inr (0, 0), \<lparr>is_running = False, should_stop = False, accesses = 1, calls = 0\<rparr>,
     [FlagReset, Mkdir ''downloads'', Log INFO Rule50,
      Log INFO StartingDownloads, Log INFO (UrlsToProcess 1),
      Log INFO (DownloadFolder ''downloads''),
      Log INFO (ButtonSelector ''button.download-btn''),
      Log INFO (BrowserLine ''Chromium'' []), Log INFO Rule50, StartPlaywright,
      Log INFO LaunchingBrowser,
      Launch Chromium \<lparr>opt_headless = False, opt_slow_mo = 100, opt_executable_path = None\<rparr>,
      Log ERROR (BrowserError ''Executable does not exist''),
      Log INFO Rule50, Log INFO DownloadSummary, Log INFO Rule50, Log INFO (Totals 1 0 0),
      Log INFO Rule50, Log INFO Done])"
  by (simp add: run_eval failing_launch_env_def)

theorem attempts_and_outcomes_witness:
  "fst (run timeout_env two_urls (example_settings\<lparr>max_retries := 0\<rparr>) fresh_world) = Inr (0, 2)
   \<and> mkdir_raises timeout_env = None
   \<and> fst (open_session timeout_env (example_settings\<lparr>max_retries := 0\<rparr>)) = None
   \<and> Log WARNING StoppedByUser \<notin>
       set (snd (snd (run timeout_env two_urls (example_settings\<lparr>max_retries := 0\<rparr>) fresh_world)))
   \<and> processed (snd (snd (run timeout_env two_urls (example_settings\<lparr>max_retries := 0\<rparr>) fresh_world))) = 2
   \<and> attempts (snd (snd (run timeout_env two_urls (example_settings\<lparr>max_retries := 0\<rparr>) fresh_world))) \<le> 2
   \<and> fst (run late_stop_env two_urls example_settings fresh_world) = Inr (0, 1)
   \<and> Log WARNING StoppedByUser \<in> set (snd (snd (run late_stop_env two_urls example_settings fresh_world)))
   \<and> processed (snd (snd (run late_stop_env two_urls example_settings fresh_world))) = 1"
proof -
  let ?st = "example_settings\<lparr>max_retries := 0\<rparr>"
  let ?ev = "snd (snd (run timeout_env two_urls ?st fresh_world))"
  let ?lv = "snd (snd (run late_stop_env two_urls example_settings fresh_world))"
  have r: "fst (run timeout_env two_urls ?st fresh_world) = Inr (0, 2)"
    by (simp add: timeout_run)
  have mk: "mkdir_raises timeout_env = None" by (simp add: timeout_env_def quiet_env_def)
  have os: "fst (open_session timeout_env ?st) = None"
    by (simp add: open_session_def timeout_env_def quiet_env_def Let_def)
  have ns: "Log WARNING StoppedByUser \<notin> set ?ev" by (simp add: timeout_run)
  have len: "length two_urls = 2" by (simp add: two_urls_def)
  note inst = attempts_and_outcomes[where en = timeout_env and urls = two_urls and st = ?st
      and w = fresh_world]
  have p: "processed ?ev = length two_urls"
    using inst mk os ns by blast
  have a: "attempts ?ev \<le> length two_urls * (max_retries ?st + 1)"
    using inst by blast
  have l: "fst (run late_stop_env two_urls example_settings fresh_world) = Inr (0, 1)"
    "Log WARNING StoppedByUser \<in> set ?lv"
    by (simp_all add: late_stop_run late_stop_after_def)
  note late = attempts_and_outcomes[where en = late_stop_env and urls = two_urls
      and st = example_settings and w = fresh_world]
  have "case fst (run late_stop_env two_urls example_settings fresh_world) of
         Inl x \<Rightarrow> mkdir_raises late_stop_env = Some x \<and> processed ?lv = 0
       | Inr (s, f) \<Rightarrow> s + f = processed ?lv"
    using late by blast
  then have q: "processed ?lv = 1" unfolding l(1) by simp
  show ?thesis using r mk os ns p a l q unfolding len by simp
qed

text \<open>
  Claim C1 as worded fails when the browser cannot be launched: nobody calls \<open>stop()\<close>,
  no item is skipped because of cancellation, and the two counters add up to 0, not to
  the one address of the job.
\<close>

theorem launch_failure_counterexample:
  "fst (run failing_launch_env [''https://a.test/x''] example_settings fresh_world) = Inr (0, 0)
   \<and> (0::nat) + 0 \<noteq> length [''https://a.test/x'']
   \<and> StopRequested \<notin> set (snd (snd (run failing_launch_env [''https://a.test/x'']
        example_settings fresh_world)))
   \<and> Log WARNING StoppedByUser \<notin> set (snd (snd (run failing_launch_env [''https://a.test/x'']
        example_settings fresh_world)))"
  by (simp add: failing_launch_run)

end
